theory Spec2Isabelle
  imports Main "HOL-Library.Word"
begin

unbundle bit_operations_syntax

section \<open>The VarInt codec\<close>

text \<open>Go's \<^verbatim>\<open>byte\<close>, \<^verbatim>\<open>int32\<close>, \<^verbatim>\<open>uint32\<close> and \<^verbatim>\<open>int64\<close> are words; a signed type
  is read with \<open>sint\<close>, and a conversion between widths is \<open>ucast\<close> on the bit pattern.\<close>

type_synonym byte = "8 word"
type_synonym int32 = "32 word"
type_synonym uint32 = "32 word"
type_synonym int64 = "64 word"

text \<open>The errors the modelled code returns. Go's errors are values; each constructor
  stands for one error site.\<close>

datatype error =
    EOF                            \<comment> \<open>\<^verbatim>\<open>io.EOF\<close>\<close>
  | ErrUnexpectedEOF               \<comment> \<open>\<^verbatim>\<open>io.ErrUnexpectedEOF\<close>\<close>
  | ErrVarIntTooLong               \<comment> \<open>\<^verbatim>\<open>varint too long\<close>\<close>
  | ErrInvalidFrameLength int64    \<comment> \<open>\<^verbatim>\<open>invalid frame length %d\<close>\<close>
  | ErrWriterClosed                \<comment> \<open>\<^verbatim>\<open>mcpr: writer closed\<close>\<close>
  | ErrCreateEntry string error    \<comment> \<open>\<^verbatim>\<open>create <name>: %w\<close>\<close>
  | ErrSinkIO                      \<comment> \<open>the sink under the archive failed\<close>
  | ErrZipEntryClosed              \<comment> \<open>\<^verbatim>\<open>zip: write to closed file\<close>\<close>
  | ErrZipClosedTwice              \<comment> \<open>\<^verbatim>\<open>zip: writer closed twice\<close>\<close>
  | ErrFileClose                   \<comment> \<open>\<^verbatim>\<open>os.File.Close\<close> failed\<close>
  | ErrClosedPipe                  \<comment> \<open>\<^verbatim>\<open>io: read/write on closed pipe\<close>\<close>
  | ErrNotFound                    \<comment> \<open>\<^verbatim>\<open>replay file not found\<close>\<close>
  | ErrEmptyFile                   \<comment> \<open>\<^verbatim>\<open>replay file is empty (0 bytes)\<close>\<close>
  | ErrNotZip                      \<comment> \<open>\<^verbatim>\<open>not a valid zip file\<close>\<close>
  | ErrMissingFile string          \<comment> \<open>\<^verbatim>\<open>missing required file: <name>\<close>\<close>
  | ErrOpenMeta                    \<comment> \<open>\<^verbatim>\<open>failed to open metaData.json\<close>\<close>
  | ErrReadMeta                    \<comment> \<open>\<^verbatim>\<open>failed to read metaData.json\<close>\<close>
  | ErrParseMeta                   \<comment> \<open>\<^verbatim>\<open>failed to parse metaData.json\<close>\<close>

text \<open>\<^verbatim>\<open>encodeVarInt\<close> (package mcpr): the loop with its accumulator \<open>out\<close>.\<close>

function encodeVarInt_loop :: "uint32 \<Rightarrow> byte list \<Rightarrow> byte list" where
  "encodeVarInt_loop uv out =
     (let b = (ucast (uv AND 0x7F) :: byte);
          uv' = drop_bit 7 uv;
          b' = (if uv' \<noteq> 0 then b OR 0x80 else b);
          out' = out @ [b']
      in if uv' = 0 then out' else encodeVarInt_loop uv' out')"
  by pat_completeness auto

lemma drop_bit_7_less: "drop_bit 7 (uv :: uint32) \<noteq> 0 \<Longrightarrow> unat (drop_bit 7 uv) < unat uv"
proof -
  assume "drop_bit 7 uv \<noteq> 0"
  then have "unat (drop_bit 7 uv) \<noteq> 0" by (simp add: unat_eq_0)
  moreover have "unat (drop_bit 7 uv) = unat uv div 128"
    by (simp add: drop_bit_eq_div unat_div)
  ultimately show ?thesis by simp
qed

termination encodeVarInt_loop
  by (relation "measure (\<lambda>(uv, out). unat uv)") (auto simp: drop_bit_7_less)

declare encodeVarInt_loop.simps [simp del]

definition encodeVarInt :: "int32 \<Rightarrow> byte list" where
  "encodeVarInt v = encodeVarInt_loop v []"

text \<open>\<^verbatim>\<open>readVarInt\<close> (proxyrec): the byte source is the list of bytes still to come, and
  the result carries what is left of it. \<^verbatim>\<open>ReadByte\<close> at the end of the source is \<open>EOF\<close>.\<close>

function readVarInt_loop :: "nat \<Rightarrow> int64 \<Rightarrow> nat \<Rightarrow> byte list \<Rightarrow> (error + int64) \<times> byte list" where
  "readVarInt_loop i num shift r =
     (if i < 5 then
        (case r of
           [] \<Rightarrow> (Inl EOF, [])
         | b # r' \<Rightarrow>
             (let num' = num OR push_bit shift (ucast (b AND 0x7F)) in
              if b AND 0x80 = 0 then (Inr num', r')
              else readVarInt_loop (i + 1) num' (shift + 7) r'))
      else (Inl ErrVarIntTooLong, r))"
  by pat_completeness auto
termination
  by (relation "measure (\<lambda>(i, num, shift, r). 5 - i)") auto

declare readVarInt_loop.simps [simp del]

definition readVarInt :: "byte list \<Rightarrow> (error + int64) \<times> byte list" where
  "readVarInt r = readVarInt_loop 0 0 0 r"

subsection \<open>Properties of the codec\<close>

lemma encodeVarInt_loop_acc:
  "encodeVarInt_loop uv out = out @ encodeVarInt_loop uv []"
proof (induction "unat uv" arbitrary: uv out rule: less_induct)
  case less
  show ?case
  proof (cases "drop_bit 7 uv = 0")
    case True
    then show ?thesis
      by (subst (1 2) encodeVarInt_loop.simps) (simp add: Let_def)
  next
    case False
    have step: "encodeVarInt_loop uv acc =
        encodeVarInt_loop (drop_bit 7 uv) (acc @ [ucast (uv AND 0x7F) OR 0x80])" for acc
      using False by (subst encodeVarInt_loop.simps) (simp add: Let_def)
    have ih: "encodeVarInt_loop (drop_bit 7 uv) acc = acc @ encodeVarInt_loop (drop_bit 7 uv) []" for acc
      using less [OF drop_bit_7_less [OF False]] .
    show ?thesis
      by (simp add: step [of out] step [of "[]"] ih [of "out @ _"] ih [of "[_]"])
  qed
qed

lemma encodeVarInt_loop_unfold:
  "encodeVarInt_loop uv [] =
     (if drop_bit 7 uv = 0 then [ucast (uv AND 0x7F)]
      else (ucast (uv AND 0x7F) OR 0x80) # encodeVarInt_loop (drop_bit 7 uv) [])"
proof (cases "drop_bit 7 uv = 0")
  case True
  then show ?thesis by (subst encodeVarInt_loop.simps) (simp add: Let_def)
next
  case False
  have "encodeVarInt_loop uv [] =
        encodeVarInt_loop (drop_bit 7 uv) [ucast (uv AND 0x7F) OR 0x80]"
    using False by (subst encodeVarInt_loop.simps) (simp add: Let_def)
  also have "\<dots> = [ucast (uv AND 0x7F) OR 0x80] @ encodeVarInt_loop (drop_bit 7 uv) []"
    by (rule encodeVarInt_loop_acc)
  finally show ?thesis using False by simp
qed

lemma encodeVarInt_length_bounds:
  "1 \<le> length (encodeVarInt_loop uv []) \<and>
   unat uv < 2 ^ (7 * length (encodeVarInt_loop uv [])) \<and>
   (length (encodeVarInt_loop uv []) = 1 \<or>
      2 ^ (7 * (length (encodeVarInt_loop uv []) - 1)) \<le> unat uv)"
proof (induction "unat uv" arbitrary: uv rule: less_induct)
  case less
  show ?case
  proof (cases "drop_bit 7 uv = 0")
    case True
    have "unat (drop_bit 7 uv) = unat uv div 128"
      by (simp add: drop_bit_eq_div unat_div)
    with True have small: "unat uv div 128 = 0" by simp
    have one: "encodeVarInt_loop uv [] = [ucast (uv AND 0x7F)]"
      using True by (subst encodeVarInt_loop_unfold) simp
    from small have "unat uv < 128" by simp
    then show ?thesis by (simp add: one)
  next
    case False
    let ?n = "length (encodeVarInt_loop (drop_bit 7 uv) [])"
    have d: "unat (drop_bit 7 uv) = unat uv div 128"
      by (simp add: drop_bit_eq_div unat_div)
    have ih: "1 \<le> ?n" "unat uv div 128 < 2 ^ (7 * ?n)"
       "?n = 1 \<or> 2 ^ (7 * (?n - 1)) \<le> unat uv div 128"
      using less [OF drop_bit_7_less [OF False]] d by auto
    have len: "length (encodeVarInt_loop uv []) = Suc ?n"
      using False by (subst encodeVarInt_loop_unfold) simp
    have nz: "1 \<le> unat uv div 128"
    proof -
      from False have "unat (drop_bit 7 uv) \<noteq> 0" by (simp add: unat_eq_0)
      with d show ?thesis by simp
    qed
    have up: "unat uv < 2 ^ (7 * Suc ?n)"
    proof -
      have "unat uv < 128 * (unat uv div 128 + 1)" by simp
      also have "\<dots> \<le> 128 * 2 ^ (7 * ?n)" using ih(2) by simp
      finally show ?thesis by (simp add: power_add)
    qed
    have lo: "(2::nat) ^ (7 * ?n) \<le> unat uv"
    proof (cases "?n = 1")
      case True
      then show ?thesis using nz by simp
    next
      case False
      then have "2 ^ (7 * (?n - 1)) \<le> unat uv div 128" using ih(3) by simp
      then have "128 * 2 ^ (7 * (?n - 1)) \<le> unat uv" by simp
      moreover have "(128::nat) * 2 ^ (7 * (?n - 1)) = 2 ^ (7 * ?n)"
      proof -
        have "7 * ?n = 7 + 7 * (?n - 1)" using ih(1) by simp
        then show ?thesis by (simp add: power_add)
      qed
      ultimately show ?thesis by simp
    qed
    show ?thesis using up lo by (simp add: len)
  qed
qed


lemma x7F_mask: "(0x7F :: 'a::len word) = mask 7"
  by (simp add: mask_eq_exp_minus_1)

lemma bit_x80: "bit (0x80 :: 'a::len word) n \<longleftrightarrow> n = 7 \<and> 7 < LENGTH('a)"
proof -
  have "(0x80 :: 'a word) = 2 ^ 7" by simp
  then show ?thesis by (simp only: bit_exp_iff) (auto simp: possible_bit_word)
qed

lemma low7_no_cont: "(ucast ((uv :: uint32) AND 0x7F) :: byte) AND 0x80 = 0"
  unfolding x7F_mask
  by (rule bit_word_eqI) (auto simp: bit_simps bit_x80 simp del: bit_numeral_word_iff)

lemma cont_bit_set: "((b :: byte) OR 0x80) AND 0x80 \<noteq> 0"
proof -
  have "bit (((b :: byte) OR 0x80) AND 0x80) 7"
    by (simp add: bit_simps bit_x80 del: bit_numeral_word_iff)
  then show ?thesis by auto
qed

lemma low7_of_cont: "(ucast (((ucast ((uv :: uint32) AND 0x7F) :: byte) OR 0x80) AND 0x7F) :: int64) = ucast (uv AND 0x7F)"
  unfolding x7F_mask
  by (rule bit_word_eqI) (auto simp: bit_simps bit_x80 simp del: bit_numeral_word_iff)

lemma low7_of_last: "(ucast ((ucast ((uv :: uint32) AND 0x7F) :: byte) AND 0x7F) :: int64) = ucast (uv AND 0x7F)"
  unfolding x7F_mask
  by (rule bit_word_eqI) (auto simp: bit_simps)

lemma low7_all: "drop_bit 7 (uv :: uint32) = 0 \<Longrightarrow> uv AND 0x7F = uv"
  unfolding x7F_mask
  by (simp add: take_bit_eq_mask [symmetric] take_bit_eq_self_iff_drop_bit_eq_0)

lemma glue7: "push_bit s (ucast ((uv :: uint32) AND 0x7F) :: int64) OR push_bit (s + 7) (ucast (drop_bit 7 uv)) = push_bit s (ucast uv)"
  unfolding x7F_mask
proof (rule bit_word_eqI)
  fix n
  assume "n < LENGTH(64)"
  have shift: "7 + (n - (s + 7)) = n - s" if "7 \<le> n - s" using that by simp
  show "bit (push_bit s (ucast (uv AND mask 7) :: int64) OR push_bit (s + 7) (ucast (drop_bit 7 uv))) n
      = bit (push_bit s (ucast uv) :: int64) n"
  proof (cases "n - s < 7")
    case True
    then show ?thesis by (auto simp: bit_simps dest: bit_imp_le_length)
  next
    case False
    then show ?thesis using shift by (auto simp: bit_simps dest: bit_imp_le_length)
  qed
qed

lemma readVarInt_loop_encode:
  "i + length (encodeVarInt_loop uv []) \<le> 5 \<Longrightarrow>
   readVarInt_loop i num s (encodeVarInt_loop uv [] @ rest) =
     (Inr (num OR push_bit s (ucast uv)), rest)"
proof (induction "unat uv" arbitrary: uv i num s rule: less_induct)
  case less
  show ?case
  proof (cases "drop_bit 7 uv = 0")
    case True
    have one: "encodeVarInt_loop uv [] = [ucast (uv AND 0x7F)]"
      using True by (subst encodeVarInt_loop_unfold) simp
    have uvs: "uv AND 0x7F = uv" by (rule low7_all [OF True])
    have nc: "(ucast uv :: byte) AND 0x80 = 0" using low7_no_cont [of uv] by (simp only: uvs)
    have l7: "(ucast ((ucast uv :: byte) AND 0x7F) :: int64) = ucast uv"
      using low7_of_last [of uv] by (simp only: uvs)
    have "i < 5" using less.prems by (simp add: one)
    then show ?thesis
      by (subst readVarInt_loop.simps) (simp add: one uvs nc l7 Let_def)
  next
    case False
    let ?b = "(ucast (uv AND 0x7F) :: byte) OR 0x80"
    have more: "encodeVarInt_loop uv [] = ?b # encodeVarInt_loop (drop_bit 7 uv) []"
      using False by (subst encodeVarInt_loop_unfold) simp
    have i: "i < 5" "(i + 1) + length (encodeVarInt_loop (drop_bit 7 uv) []) \<le> 5"
      using less.prems by (simp_all add: more)
    have ih: "readVarInt_loop (i + 1) (num OR push_bit s (ucast (uv AND 0x7F))) (s + 7)
                (encodeVarInt_loop (drop_bit 7 uv) [] @ rest) =
              (Inr ((num OR push_bit s (ucast (uv AND 0x7F))) OR
                    push_bit (s + 7) (ucast (drop_bit 7 uv))), rest)"
      by (rule less.hyps [OF drop_bit_7_less [OF False] i(2)])
    have "readVarInt_loop i num s (encodeVarInt_loop uv [] @ rest) =
          readVarInt_loop (i + 1) (num OR push_bit s (ucast (uv AND 0x7F))) (s + 7)
                (encodeVarInt_loop (drop_bit 7 uv) [] @ rest)"
      using i(1) by (subst readVarInt_loop.simps)
         (simp add: more cont_bit_set low7_of_cont Let_def)
    also note ih
    finally show ?thesis by (simp add: glue7 or.assoc)
  qed
qed

lemma encodeVarInt_length_le5: "length (encodeVarInt_loop uv []) \<le> 5"
proof (rule ccontr)
  let ?n = "length (encodeVarInt_loop uv [])"
  assume "\<not> ?n \<le> 5"
  then have big: "35 \<le> 7 * (?n - 1)" and "?n \<noteq> 1" by simp_all
  then have "2 ^ (7 * (?n - 1)) \<le> unat uv"
    using encodeVarInt_length_bounds [of uv] by simp
  moreover have "(2::nat) ^ 35 \<le> 2 ^ (7 * (?n - 1))"
    using big by (rule power_increasing) simp
  moreover have "unat uv < 2 ^ 32" using unsigned_less [of uv] by simp
  ultimately show False by simp
qed

lemma readVarInt_encodeVarInt:
  "readVarInt (encodeVarInt v @ rest) = (Inr (ucast v), rest)"
  using readVarInt_loop_encode [of 0 v 0 0 rest] encodeVarInt_length_le5 [of v]
  by (simp add: readVarInt_def encodeVarInt_def)

lemma int32_of_ucast: "(ucast (ucast (v :: int32) :: int64) :: int32) = v"
  by (rule bit_word_eqI) (auto simp: bit_simps)


lemma readVarInt_loop_consumes:
  "readVarInt_loop i num s r = (res, r') \<Longrightarrow> \<exists>c. r = c @ r' \<and> length c \<le> 5 - i"
proof (induction i num s r rule: readVarInt_loop.induct)
  case (1 i num shift r)
  show ?case
  proof (cases "i < 5")
    case False
    then show ?thesis using "1.prems" by (subst (asm) readVarInt_loop.simps) simp
  next
    case lt: True
    show ?thesis
    proof (cases r)
      case Nil
      then show ?thesis using "1.prems" lt by (subst (asm) readVarInt_loop.simps) simp
    next
      case (Cons b r1)
      let ?num = "num OR push_bit shift (ucast (b AND 0x7F))"
      show ?thesis
      proof (cases "b AND 0x80 = 0")
        case True
        then have "r' = r1"
          using "1.prems" lt Cons by (subst (asm) readVarInt_loop.simps) (simp add: Let_def)
        then have "r = [b] @ r'" "length [b] \<le> 5 - i" using Cons lt by simp_all
        then show ?thesis by blast
      next
        case False
        then have "readVarInt_loop (i + 1) ?num (shift + 7) r1 = (res, r')"
          using "1.prems" lt Cons by (subst (asm) readVarInt_loop.simps) (simp add: Let_def)
        from "1.IH" [OF lt Cons refl False this]
        obtain c where "r1 = c @ r'" "length c \<le> 5 - (i + 1)" by blast
        then have "r = (b # c) @ r'" "length (b # c) \<le> 5 - i" using Cons lt by simp_all
        then show ?thesis by blast
      qed
    qed
  qed
qed

lemma take_bit_step:
  assumes "take_bit s (num :: int64) = num"
  shows "take_bit (s + 7) (num OR push_bit s (ucast ((b :: byte) AND 0x7F))) =
         num OR push_bit s (ucast (b AND 0x7F))"
proof (rule bit_word_eqI)
  fix n
  assume "n < LENGTH(64)"
  have hi: "bit num n \<Longrightarrow> n < s"
    by (metis assms bit_take_bit_iff)
  show "bit (take_bit (s + 7) (num OR push_bit s (ucast (b AND 0x7F)))) n =
        bit (num OR push_bit s (ucast (b AND 0x7F)) :: int64) n"
    unfolding x7F_mask using hi by (auto simp: bit_simps)
qed

lemma readVarInt_loop_value_bound:
  "readVarInt_loop i num s r = (Inr x, r') \<Longrightarrow> take_bit s num = num \<Longrightarrow>
   \<exists>k. 1 \<le> k \<and> length r = k + length r' \<and> i + k \<le> 5 \<and> take_bit (s + 7 * k) x = x"
proof (induction i num s r rule: readVarInt_loop.induct)
  case (1 i num shift r)
  have lt: "i < 5"
    using "1.prems"(1) by (subst (asm) readVarInt_loop.simps) (simp split: if_splits)
  obtain b r1 where Cons: "r = b # r1"
    using "1.prems"(1) lt by (subst (asm) readVarInt_loop.simps) (simp split: list.splits)
  let ?num = "num OR push_bit shift (ucast (b AND 0x7F))"
  have tb: "take_bit (shift + 7) ?num = ?num" by (rule take_bit_step [OF "1.prems"(2)])
  show ?case
  proof (cases "b AND 0x80 = 0")
    case True
    then have "x = ?num" "r' = r1"
      using "1.prems"(1) lt Cons by (subst (asm) readVarInt_loop.simps, simp add: Let_def)+
    then have "1 \<le> (1::nat) \<and> length r = 1 + length r' \<and> i + 1 \<le> 5 \<and> take_bit (shift + 7 * 1) x = x"
      using Cons lt tb by simp
    then show ?thesis by blast
  next
    case False
    then have "readVarInt_loop (i + 1) ?num (shift + 7) r1 = (Inr x, r')"
      using "1.prems"(1) lt Cons by (subst (asm) readVarInt_loop.simps) (simp add: Let_def)
    from "1.IH" [OF lt Cons refl False this tb]
    obtain k where k: "1 \<le> k" "length r1 = k + length r'" "i + 1 + k \<le> 5"
       "take_bit (shift + 7 + 7 * k) x = x" by blast
    have "1 \<le> Suc k \<and> length r = Suc k + length r' \<and> i + Suc k \<le> 5 \<and> take_bit (shift + 7 * Suc k) x = x"
      using k Cons by (simp add: ac_simps)
    then show ?thesis by blast
  qed
qed

lemma encodeVarInt_length_le:
  assumes "unat v < 2 ^ (7 * k)" "1 \<le> k"
  shows "length (encodeVarInt_loop v []) \<le> k"
proof (rule ccontr)
  let ?n = "length (encodeVarInt_loop v [])"
  assume "\<not> ?n \<le> k"
  then have big: "7 * k \<le> 7 * (?n - 1)" and "?n \<noteq> 1" using assms(2) by simp_all
  then have "2 ^ (7 * (?n - 1)) \<le> unat v"
    using encodeVarInt_length_bounds [of v] by simp
  moreover have "(2::nat) ^ (7 * k) \<le> 2 ^ (7 * (?n - 1))"
    using big by (rule power_increasing) simp
  ultimately show False using assms(1) by linarith
qed

lemma encodeVarInt_minimal:
  assumes "readVarInt bs = (Inr x, rest)"
  shows "length (encodeVarInt (ucast x)) \<le> length bs - length rest"
proof -
  from readVarInt_loop_value_bound [OF assms [unfolded readVarInt_def]]
  obtain k where k: "1 \<le> k" "length bs = k + length rest" "k \<le> 5" "take_bit (7 * k) x = x"
    by auto
  have "unat x = take_bit (7 * k) (unat x)"
    using k(4) by (metis unsigned_take_bit_eq)
  then have "unat x < 2 ^ (7 * k)"
    by (metis take_bit_nat_eq_self_iff)
  moreover have "unat (ucast x :: int32) \<le> unat x"
    by (simp add: unsigned_ucast_eq take_bit_nat_less_eq_self)
  ultimately have "unat (ucast x :: int32) < 2 ^ (7 * k)" by simp
  from encodeVarInt_length_le [OF this k(1)] show ?thesis
    using k(2) by (simp add: encodeVarInt_def)
qed

section \<open>The container writer (package mcpr)\<close>

subsection \<open>Big-endian words, CRC-32 and decimal text\<close>

text \<open>\<^verbatim>\<open>binary.BigEndian.PutUint32\<close>: the most significant byte first.\<close>

definition PutUint32 :: "uint32 \<Rightarrow> byte list" where
  "PutUint32 v = [ucast (drop_bit 24 v), ucast (drop_bit 16 v), ucast (drop_bit 8 v), ucast v]"

text \<open>The reader's side of the same layout (\<^verbatim>\<open>binary.BigEndian.Uint32\<close>); \<open>None\<close> when
  fewer than four bytes are given, where Go panics.\<close>

fun Uint32 :: "byte list \<Rightarrow> uint32 option" where
  "Uint32 (b0 # b1 # b2 # b3 # _) =
     Some (push_bit 24 (ucast b0) OR push_bit 16 (ucast b1) OR push_bit 8 (ucast b2) OR ucast b3)"
| "Uint32 _ = None"

text \<open>\<^verbatim>\<open>hash/crc32\<close> with the IEEE polynomial (reflected, 0xEDB88320), bit by bit; the
  digest starts at 0 and \<^verbatim>\<open>Sum32\<close> returns the running value.\<close>

definition crc32_bit :: "uint32 \<Rightarrow> uint32" where
  "crc32_bit c = (if c AND 1 = 1 then drop_bit 1 c XOR 0xEDB88320 else drop_bit 1 c)"

definition crc32_byte :: "uint32 \<Rightarrow> byte \<Rightarrow> uint32" where
  "crc32_byte c b =
     crc32_bit (crc32_bit (crc32_bit (crc32_bit
       (crc32_bit (crc32_bit (crc32_bit (crc32_bit (c XOR ucast b))))))))"

definition crc32_Update :: "uint32 \<Rightarrow> byte list \<Rightarrow> uint32" where
  "crc32_Update crc p = NOT (foldl crc32_byte (NOT crc) p)"

text \<open>\<^verbatim>\<open>fmt.Sprintf("%d", n)\<close> for an unsigned value.\<close>

fun decimal :: "nat \<Rightarrow> string" where
  "decimal n =
     (if n < 10 then [char_of (48 + n)] else decimal (n div 10) @ [char_of (48 + n mod 10)])"

declare decimal.simps [simp del]

definition bytes_of :: "string \<Rightarrow> byte list" where
  "bytes_of s = map (\<lambda>c. of_nat (of_char c)) s"

subsection \<open>Metadata (meta.go) and its JSON document\<close>

definition CurrentFileFormatVersion :: int where
  "CurrentFileFormatVersion = 14"

text \<open>Go's \<^verbatim>\<open>int\<close> and \<^verbatim>\<open>int64\<close> fields are integers here; every value the writer itself
  stores comes from a \<^verbatim>\<open>uint32\<close> or a constant. A nil and an empty \<^verbatim>\<open>Players\<close> slice are
  both the empty list: \<^verbatim>\<open>AddPlayer\<close> and \<^verbatim>\<open>omitempty\<close> treat them alike.\<close>

record Meta =
  Singleplayer :: bool
  ServerName :: string
  CustomServerName :: string
  Duration :: int
  Date :: int
  MCVersion :: string
  FileFormat :: string
  FileFormatVersion :: int
  Protocol :: int
  Generator :: string
  SelfID :: int
  Players :: "string list"

datatype json =
    JBool bool
  | JInt int
  | JString string
  | JArray "json list"
  | JObject "(string \<times> json) list"

text \<open>\<^verbatim>\<open>json.Marshal\<close> of a \<^verbatim>\<open>Meta\<close>, as the document it denotes: the struct tags give the
  keys in field order, and \<^verbatim>\<open>omitempty\<close> drops an empty string, a zero and an empty list.
  \<^verbatim>\<open>singleplayer\<close> has no \<^verbatim>\<open>omitempty\<close>.\<close>

definition omit_string :: "string \<Rightarrow> string \<Rightarrow> (string \<times> json) list" where
  "omit_string k s = (if s = [] then [] else [(k, JString s)])"

definition omit_int :: "string \<Rightarrow> int \<Rightarrow> (string \<times> json) list" where
  "omit_int k n = (if n = 0 then [] else [(k, JInt n)])"

definition Marshal_Meta :: "Meta \<Rightarrow> json" where
  "Marshal_Meta m = JObject (
     [(''singleplayer'', JBool (Singleplayer m))] @
     omit_string ''serverName'' (ServerName m) @
     omit_string ''customServerName'' (CustomServerName m) @
     omit_int ''duration'' (Duration m) @
     omit_int ''date'' (Date m) @
     omit_string ''mcversion'' (MCVersion m) @
     omit_string ''fileFormat'' (FileFormat m) @
     omit_int ''fileFormatVersion'' (FileFormatVersion m) @
     omit_int ''protocol'' (Protocol m) @
     omit_string ''generator'' (Generator m) @
     omit_int ''selfId'' (SelfID m) @
     (if Players m = [] then [] else [(''players'', JArray (map JString (Players m)))]))"

text \<open>The \<^verbatim>\<open>mods.json\<close> document: \<^verbatim>\<open>{"requiredMods": []}\<close>.\<close>

definition modsJSON :: json where
  "modsJSON = JObject [(''requiredMods'', JArray [])]"

subsection \<open>The archive under the writer (archive/zip as the writer uses it)\<close>

text \<open>What one \<^verbatim>\<open>Write\<close> hands to an entry: raw bytes, or the text of a JSON document.\<close>

datatype chunk = Raw "byte list" | Doc json

text \<open>The bytes of an entry that holds raw chunks only; a document chunk has no bytes in
  this model, so the entry then has none.\<close>

fun raw_bytes :: "chunk list \<Rightarrow> byte list option" where
  "raw_bytes [] = Some []"
| "raw_bytes (Raw bs # cs) = map_option ((@) bs) (raw_bytes cs)"
| "raw_bytes (Doc j # cs) = None"

text \<open>The ZIP writer: the entries in creation order, each with the chunks written to it;
  whether the newest entry still accepts writes; whether the central directory was
  started; and the behaviour of the sink under it, one outcome per coming operation that
  reaches the sink (\<open>True\<close>: that operation fails; nothing left: it succeeds).\<close>

record zip_Writer =
  entries :: "(string \<times> chunk list) list"
  last_open :: bool
  zclosed :: bool
  sink :: "bool list"

definition sink_op :: "zip_Writer \<Rightarrow> bool \<times> zip_Writer" where
  "sink_op z = (case sink z of [] \<Rightarrow> (False, z) | f # fs \<Rightarrow> (f, z\<lparr>sink := fs\<rparr>))"

text \<open>\<^verbatim>\<open>zw.Create(name)\<close>: the entry before it is closed to writes first, then the new
  header goes to the sink. The handle of the new entry is its position.\<close>

definition zip_Create :: "string \<Rightarrow> zip_Writer \<Rightarrow> (error + nat) \<times> zip_Writer" where
  "zip_Create name z =
     (let (failed, z1) = sink_op (z\<lparr>last_open := False\<rparr>) in
      if failed then (Inl ErrSinkIO, z1)
      else (Inr (length (entries z1)),
            z1\<lparr>entries := entries z1 @ [(name, [])], last_open := True\<rparr>))"

text \<open>A write through an entry's handle: only the newest entry, while open, accepts it
  (\<^verbatim>\<open>zip: write to closed file\<close> otherwise).\<close>

definition zip_entry_Write :: "nat \<Rightarrow> chunk \<Rightarrow> zip_Writer \<Rightarrow> error option \<times> zip_Writer" where
  "zip_entry_Write h c z =
     (if \<not> (last_open z \<and> Suc h = length (entries z)) then (Some ErrZipEntryClosed, z)
      else
        (let (failed, z1) = sink_op z in
         if failed then (Some ErrSinkIO, z1)
         else (None, z1\<lparr>entries := (entries z1)[h := (fst (entries z1 ! h), snd (entries z1 ! h) @ [c])]\<rparr>)))"

definition zip_Close :: "zip_Writer \<Rightarrow> error option \<times> zip_Writer" where
  "zip_Close z =
     (let z0 = z\<lparr>last_open := False\<rparr> in
      if zclosed z0 then (Some ErrZipClosedTwice, z0)
      else
        (let (failed, z1) = sink_op (z0\<lparr>zclosed := True\<rparr>) in
         if failed then (Some ErrSinkIO, z1) else (None, z1)))"

subsection \<open>Writer (the container writer)\<close>

record os_File =
  fname :: string
  close_fails :: bool

record Writer =
  zw :: zip_Writer
  recw :: "nat option"
  meta :: Meta
  duration :: uint32
  closed :: bool
  wfile :: "os_File option"
  crc32 :: uint32

text \<open>\<^verbatim>\<open>w.recw.Write(p)\<close>, the \<^verbatim>\<open>io.MultiWriter(rec, crc)\<close>: the entry first, and the
  checksum only when the entry took the bytes; \<open>rec\<close> is the entry's handle.\<close>

definition recw_Write :: "nat \<Rightarrow> byte list \<Rightarrow> Writer \<Rightarrow> error option \<times> Writer" where
  "recw_Write rec p w =
     (case zip_entry_Write rec (Raw p) (zw w) of
        (Some e, z) \<Rightarrow> (Some e, w\<lparr>zw := z\<rparr>)
      | (None, z) \<Rightarrow> (None, w\<lparr>zw := z, crc32 := crc32_Update (crc32 w) p\<rparr>))"

text \<open>\<^verbatim>\<open>NewWriter(out, meta)\<close>: \<open>out\<close> is the sink's behaviour, \<open>now\<close> is
  \<^verbatim>\<open>time.Now().UnixMilli()\<close>.\<close>

definition NewWriter :: "bool list \<Rightarrow> int \<Rightarrow> Meta \<Rightarrow> error + Writer" where
  "NewWriter out now meta0 =
     (case zip_Create ''recording.tmcpr''
             \<lparr>entries = [], last_open = False, zclosed = False, sink = out\<rparr> of
        (Inl e, z) \<Rightarrow> Inl (ErrCreateEntry ''recording.tmcpr'' e)
      | (Inr rec, z) \<Rightarrow>
          (let m1 = (if FileFormat meta0 = [] then meta0\<lparr>FileFormat := ''MCPR''\<rparr> else meta0);
               m2 = (if FileFormatVersion m1 = 0
                     then m1\<lparr>FileFormatVersion := CurrentFileFormatVersion\<rparr> else m1);
               m3 = (if Date m2 = 0 then m2\<lparr>Date := now\<rparr> else m2)
           in Inr \<lparr>zw = z, recw = Some rec, meta = m3, duration = 0, closed = False,
                   wfile = None, crc32 = 0\<rparr>))"

text \<open>\<^verbatim>\<open>Create(path, meta)\<close>: \<open>opened\<close> is what \<^verbatim>\<open>os.Create(path)\<close> returned.\<close>

definition Create :: "error + os_File \<Rightarrow> bool list \<Rightarrow> int \<Rightarrow> Meta \<Rightarrow> error + Writer" where
  "Create opened out now meta0 =
     (case opened of
        Inl e \<Rightarrow> Inl e
      | Inr f \<Rightarrow>
          (case NewWriter out now meta0 of
             Inl e \<Rightarrow> Inl e
           | Inr w \<Rightarrow> Inr (w\<lparr>wfile := Some f\<rparr>)))"

text \<open>\<^verbatim>\<open>WritePacket\<close>. Its guard \<^verbatim>\<open>w.closed || w.recw == nil\<close> is the first two branches.\<close>

definition WritePacket :: "uint32 \<Rightarrow> int32 \<Rightarrow> byte list \<Rightarrow> Writer \<Rightarrow> error option \<times> Writer" where
  "WritePacket ts packetID payload w =
     (case recw w of
        None \<Rightarrow> (Some ErrWriterClosed, w)
      | Some rec \<Rightarrow>
          if closed w then (Some ErrWriterClosed, w)
          else
            (let varid = encodeVarInt packetID;
                 total_len = (of_nat (length varid + length payload) :: uint32);
                 hdr = PutUint32 ts @ PutUint32 total_len
             in case recw_Write rec hdr w of
                  (Some e, w1) \<Rightarrow> (Some e, w1)
                | (None, w1) \<Rightarrow>
                    (case recw_Write rec varid w1 of
                       (Some e, w2) \<Rightarrow> (Some e, w2)
                     | (None, w2) \<Rightarrow>
                         (case recw_Write rec payload w2 of
                            (Some e, w3) \<Rightarrow> (Some e, w3)
                          | (None, w3) \<Rightarrow>
                              (None, if duration w3 < ts then w3\<lparr>duration := ts\<rparr> else w3)))))"

definition SetSelfID :: "int \<Rightarrow> Writer \<Rightarrow> Writer" where
  "SetSelfID eid w = w\<lparr>meta := (meta w)\<lparr>SelfID := eid\<rparr>\<rparr>"

definition AddPlayer :: "string \<Rightarrow> Writer \<Rightarrow> Writer" where
  "AddPlayer uuid w =
     (if uuid \<in> set (Players (meta w)) then w
      else w\<lparr>meta := (meta w)\<lparr>Players := Players (meta w) @ [uuid]\<rparr>\<rparr>)"

definition CreateEntry :: "string \<Rightarrow> Writer \<Rightarrow> (error + nat) \<times> Writer" where
  "CreateEntry name w =
     (if closed w then (Inl ErrWriterClosed, w)
      else (case zip_Create name (zw w) of (r, z) \<Rightarrow> (r, w\<lparr>zw := z\<rparr>)))"

text \<open>One entry of \<^verbatim>\<open>Close\<close>: create it and write its single chunk.\<close>

definition put_entry :: "string \<Rightarrow> chunk \<Rightarrow> Writer \<Rightarrow> error option \<times> Writer" where
  "put_entry name c w =
     (case zip_Create name (zw w) of
        (Inl e, z) \<Rightarrow> (Some (ErrCreateEntry name e), w\<lparr>zw := z\<rparr>)
      | (Inr h, z) \<Rightarrow>
          (case zip_entry_Write h c z of (r, z') \<Rightarrow> (r, w\<lparr>zw := z'\<rparr>)))"

text \<open>The metadata as \<^verbatim>\<open>Close\<close> completes it before writing: the duration and the
  fields still at their defaults.\<close>

definition final_meta :: "Writer \<Rightarrow> Meta" where
  "final_meta w =
     (let m0 = (meta w)\<lparr>Duration := uint (duration w)\<rparr>;
          m1 = (if Generator m0 = [] then m0\<lparr>Generator := ''mc-replay-go''\<rparr> else m0);
          m2 = (if FileFormat m1 = [] then m1\<lparr>FileFormat := ''MCPR''\<rparr> else m1);
          m3 = (if FileFormatVersion m2 = 0
                then m2\<lparr>FileFormatVersion := CurrentFileFormatVersion\<rparr> else m2)
      in m3)"

text \<open>The body of \<^verbatim>\<open>Close\<close> after its \<^verbatim>\<open>closed\<close> guard. \<^verbatim>\<open>json.Marshal\<close> does not fail on
  these values.\<close>

definition finalize_steps :: "Writer \<Rightarrow> error option \<times> Writer" where
  "finalize_steps w =
     (let w0 = w\<lparr>meta := final_meta w\<rparr>
      in case put_entry ''metaData.json'' (Doc (Marshal_Meta (meta w0))) w0 of
           (Some e, w1) \<Rightarrow> (Some e, w1)
         | (None, w1) \<Rightarrow>
             (case put_entry ''mods.json'' (Doc modsJSON) w1 of
                (Some e, w2) \<Rightarrow> (Some e, w2)
              | (None, w2) \<Rightarrow>
                  (case put_entry ''recording.tmcpr.crc32''
                          (Raw (bytes_of (decimal (unat (crc32 w2))))) w2 of
                     (Some e, w3) \<Rightarrow> (Some e, w3)
                   | (None, w3) \<Rightarrow>
                       (case zip_Close (zw w3) of
                          (Some e, z) \<Rightarrow> (Some e, w3\<lparr>zw := z\<rparr>)
                        | (None, z) \<Rightarrow>
                            (let w4 = w3\<lparr>zw := z, closed := True\<rparr> in
                             case wfile w4 of
                               None \<Rightarrow> (None, w4)
                             | Some f \<Rightarrow>
                                 (if close_fails f then (Some ErrFileClose, w4)
                                  else (None, w4)))))))"

definition Close :: "Writer \<Rightarrow> error option \<times> Writer" where
  "Close w = (if closed w then (None, w) else finalize_steps w)"

subsection \<open>Recorder (the facade of package recorder)\<close>

text \<open>The mutex of the \<^verbatim>\<open>Recorder\<close> serialises its methods; each method is one step here.\<close>

record Recorder =
  rw :: Writer
  rclosed :: bool

definition Recorder_New :: "Writer \<Rightarrow> Recorder" where
  "Recorder_New w = \<lparr>rw = w, rclosed = False\<rparr>"

definition RecordAt :: "uint32 \<Rightarrow> int32 \<Rightarrow> byte list \<Rightarrow> Recorder \<Rightarrow> error option \<times> Recorder" where
  "RecordAt ts pid payload r =
     (if rclosed r then (None, r)
      else (case WritePacket ts pid payload (rw r) of (e, w') \<Rightarrow> (e, r\<lparr>rw := w'\<rparr>)))"

text \<open>\<^verbatim>\<open>RecordNow\<close>: \<open>elapsed\<close> is \<^verbatim>\<open>uint32(time.Since(r.start).Milliseconds())\<close>.\<close>

definition RecordNow :: "uint32 \<Rightarrow> int32 \<Rightarrow> byte list \<Rightarrow> Recorder \<Rightarrow> error option \<times> Recorder" where
  "RecordNow elapsed pid payload r =
     (if rclosed r then (None, r)
      else (case WritePacket elapsed pid payload (rw r) of (e, w') \<Rightarrow> (e, r\<lparr>rw := w'\<rparr>)))"

definition Recorder_Close :: "Recorder \<Rightarrow> error option \<times> Recorder" where
  "Recorder_Close r =
     (if rclosed r then (None, r)
      else (case Close (rw r) of (e, w') \<Rightarrow> (e, r\<lparr>rw := w', rclosed := True\<rparr>)))"

definition Recorder_SetSelfID :: "int \<Rightarrow> Recorder \<Rightarrow> Recorder" where
  "Recorder_SetSelfID eid r = (if rclosed r then r else r\<lparr>rw := SetSelfID eid (rw r)\<rparr>)"

definition Recorder_AddPlayer :: "string \<Rightarrow> Recorder \<Rightarrow> Recorder" where
  "Recorder_AddPlayer uuid r = (if rclosed r then r else r\<lparr>rw := AddPlayer uuid (rw r)\<rparr>)"

subsection \<open>ValidateFile\<close>

text \<open>What \<^verbatim>\<open>os.Stat\<close> and \<^verbatim>\<open>zip.OpenReader\<close> find at a path: the size, and the archive's
  files when it opens as one. A file's body is what \<^verbatim>\<open>Open\<close> and \<^verbatim>\<open>io.ReadAll\<close> give.\<close>

datatype zip_body = OpenFails | ReadFails | Content "chunk list"

record zip_File =
  Name :: string
  UncompressedSize64 :: nat
  body :: zip_body

record FileInfo =
  Size :: nat
  archive :: "zip_File list option"

datatype log_line =
    WarnEmptyRecording
  | WarnFileFormat string
  | WarnFormatVersion int
  | WarnProtocolZero
  | WarnDurationZero
  | WarnMissingMods
  | WarnMissingCrc32
  | Validated string int int nat

text \<open>The \<^verbatim>\<open>fileMap\<close> of \<^verbatim>\<open>ValidateFile\<close>: a later file of the same name replaces an earlier
  one.\<close>

definition fileMap_of :: "zip_File list \<Rightarrow> string \<rightharpoonup> zip_File" where
  "fileMap_of fs = map_of (rev (map (\<lambda>f. (Name f, f)) fs))"

text \<open>\<^verbatim>\<open>ValidateFile(path)\<close>: \<open>stat\<close> is what is at the path (\<open>None\<close>: nothing),
  \<open>unmarshal\<close> is \<^verbatim>\<open>json.Unmarshal\<close> into a \<^verbatim>\<open>Meta\<close>. The result is the error and the lines
  logged.\<close>

definition ValidateFile ::
  "(chunk list \<Rightarrow> Meta option) \<Rightarrow> FileInfo option \<Rightarrow> error option \<times> log_line list" where
  "ValidateFile unmarshal stat =
     (case stat of
        None \<Rightarrow> (Some ErrNotFound, [])
      | Some info \<Rightarrow>
          if Size info = 0 then (Some ErrEmptyFile, [])
          else
            (case archive info of
               None \<Rightarrow> (Some ErrNotZip, [])
             | Some fs \<Rightarrow>
                 (case fileMap_of fs ''recording.tmcpr'' of
                    None \<Rightarrow> (Some (ErrMissingFile ''recording.tmcpr''), [])
                  | Some recFile \<Rightarrow>
                      (let log1 = (if UncompressedSize64 recFile = 0 then [WarnEmptyRecording] else [])
                       in case fileMap_of fs ''metaData.json'' of
                            None \<Rightarrow> (Some (ErrMissingFile ''metaData.json''), log1)
                          | Some metaFile \<Rightarrow>
                              (case body metaFile of
                                 OpenFails \<Rightarrow> (Some ErrOpenMeta, log1)
                               | ReadFails \<Rightarrow> (Some ErrReadMeta, log1)
                               | Content data \<Rightarrow>
                                   (case unmarshal data of
                                      None \<Rightarrow> (Some ErrParseMeta, log1)
                                    | Some m \<Rightarrow>
                                        (None,
                                         log1 @
                                         (if FileFormat m \<noteq> ''MCPR'' then [WarnFileFormat (FileFormat m)] else []) @
                                         (if FileFormatVersion m < 1 \<or> 15 < FileFormatVersion m
                                          then [WarnFormatVersion (FileFormatVersion m)] else []) @
                                         (if Protocol m = 0 then [WarnProtocolZero] else []) @
                                         (if Duration m = 0 then [WarnDurationZero] else []) @
                                         (if fileMap_of fs ''mods.json'' = None then [WarnMissingMods] else []) @
                                         (if fileMap_of fs ''recording.tmcpr.crc32'' = None
                                          then [WarnMissingCrc32] else []) @
                                         [Validated (MCVersion m) (Protocol m) (Duration m) (Size info)])))))))"

text \<open>The finalize of the specification, for comparison with \<open>Close\<close>: finalize as
  \<open>Close\<close> does, then run the structural self-check on the file just written and return
  its failure as the failure of finalize.\<close>

definition finalize_with_self_check ::
  "(chunk list \<Rightarrow> Meta option) \<Rightarrow> FileInfo option \<Rightarrow> Writer \<Rightarrow> error option \<times> Writer" where
  "finalize_with_self_check unmarshal written w =
     (case Close w of
        (Some e, w') \<Rightarrow> (Some e, w')
      | (None, w') \<Rightarrow> (fst (ValidateFile unmarshal written), w'))"

section \<open>The proxy recorder (examples/proxyrec)\<close>

subsection \<open>forwardWithTee\<close>

text \<open>The three interfaces of \<^verbatim>\<open>forwardWithTee\<close> are given by what their calls do, in call
  order. A \<^verbatim>\<open>src.Read\<close> returns some bytes and perhaps an error; when no further read is
  listed, the read does not return. A \<^verbatim>\<open>dst.Write\<close> returns nil or an error. A
  \<^verbatim>\<open>tee.Write\<close> returns nil, returns an error, or does not return: \<^verbatim>\<open>main\<close> passes the
  writing end of an \<^verbatim>\<open>io.Pipe\<close>, whose \<^verbatim>\<open>Write\<close> returns once the reading end has consumed
  the bytes or the pipe is closed. A writer with no outcome left accepts the write.\<close>

datatype tee_result = TeeOk | TeeErr error | TeeBlocks

text \<open>The outcome: the error returned (\<open>None\<close>: the call does not return), the bytes
  written to \<^verbatim>\<open>dst\<close>, and the bytes the tee accepted.\<close>

record forwarded =
  returned :: "error option"
  to_dst :: "byte list"
  to_tee :: "byte list"

definition more_dst :: "byte list \<Rightarrow> forwarded \<Rightarrow> forwarded" where
  "more_dst bs f = f\<lparr>to_dst := bs @ to_dst f\<rparr>"

definition more_tee :: "byte list \<Rightarrow> forwarded \<Rightarrow> forwarded" where
  "more_tee bs f = f\<lparr>to_tee := bs @ to_tee f\<rparr>"

fun forwardWithTee ::
  "(byte list \<times> error option) list \<Rightarrow> error option list \<Rightarrow> tee_result list option \<Rightarrow> forwarded" where
  "forwardWithTee [] dst tee = \<lparr>returned = None, to_dst = [], to_tee = []\<rparr>"
| "forwardWithTee ((buf, rerr) # src) dst tee =
     (let after_read = (\<lambda>dst' tee'.
            case rerr of
              Some e \<Rightarrow> \<lparr>returned = Some e, to_dst = [], to_tee = []\<rparr>
            | None \<Rightarrow> forwardWithTee src dst' tee')
      in if buf \<noteq> [] then
           (case (case dst of [] \<Rightarrow> None | werr # _ \<Rightarrow> werr) of
              Some werr \<Rightarrow> \<lparr>returned = Some werr, to_dst = [], to_tee = []\<rparr>
            | None \<Rightarrow>
                more_dst buf
                  (case tee of
                     None \<Rightarrow> after_read (tl dst) None
                   | Some t \<Rightarrow>
                       (case (case t of [] \<Rightarrow> TeeOk | x # _ \<Rightarrow> x) of
                          TeeBlocks \<Rightarrow> \<lparr>returned = None, to_dst = [], to_tee = []\<rparr>
                        | TeeErr terr \<Rightarrow> after_read (tl dst) (Some (tl t))
                        | TeeOk \<Rightarrow> more_tee buf (after_read (tl dst) (Some (tl t))))))
         else after_read dst tee)"

subsection \<open>parseAndRecord\<close>

text \<open>\<^verbatim>\<open>io.ReadFull(br, frame)\<close> for a frame of \<open>n\<close> bytes: \<open>EOF\<close> when nothing could be
  read, \<open>ErrUnexpectedEOF\<close> when the source ends inside the frame.\<close>

definition ReadFull :: "nat \<Rightarrow> byte list \<Rightarrow> (error + byte list) \<times> byte list" where
  "ReadFull n r =
     (if n \<le> length r then (Inr (take n r), drop n r)
      else if r = [] then (Inl EOF, [])
      else (Inl ErrUnexpectedEOF, []))"

definition singleVarInt :: "byte list \<Rightarrow> int64 \<times> bool" where
  "singleVarInt b =
     (case readVarInt b of
        (Inl e, r) \<Rightarrow> (0, False)
      | (Inr val, r) \<Rightarrow> if length r = 0 then (val, True) else (0, False))"

definition maxFrame :: int where
  "maxFrame = 8 * 2 ^ 20"

text \<open>What \<^verbatim>\<open>parseAndRecord\<close> is given besides the stream and the writer: its two flags,
  the decompressor (\<^verbatim>\<open>zlib.NewReader\<close> and \<^verbatim>\<open>io.Copy\<close>; \<open>None\<close> when either fails) and the
  clock (\<open>clock k\<close> is \<^verbatim>\<open>uint32(time.Since(start).Milliseconds())\<close> at the \<open>k\<close>-th
  reading).\<close>

record parse_cfg =
  assumeNoCompress :: bool
  guessCompress :: bool
  inflate :: "byte list \<Rightarrow> byte list option"
  clock :: "nat \<Rightarrow> uint32"

text \<open>The variables of the loop: the compression flag, the writer, and how often the
  clock was read.\<close>

record parse_state =
  compressionEnabled :: bool
  writer :: Writer
  ticks :: nat

datatype step = Stop error parse_state | Continue parse_state "byte list"

text \<open>The decoding step of the loop body: the bytes the message is read from.\<close>

definition decode_frame :: "parse_cfg \<Rightarrow> bool \<Rightarrow> byte list \<Rightarrow> byte list" where
  "decode_frame cfg enabled frame =
     (if \<not> assumeNoCompress cfg \<and> enabled then
        (case readVarInt frame of
           (Inl e, zr) \<Rightarrow> frame
         | (Inr uncompressedSize, zr) \<Rightarrow>
             if 0 < sint uncompressedSize then
               (case inflate cfg zr of None \<Rightarrow> frame | Some buf \<Rightarrow> buf)
             else zr)
      else frame)"

text \<open>One turn of the loop of \<^verbatim>\<open>parseAndRecord\<close>.\<close>

definition processFrame :: "parse_cfg \<Rightarrow> parse_state \<Rightarrow> byte list \<Rightarrow> step" where
  "processFrame cfg st br =
     (case readVarInt br of
        (Inl e, br1) \<Rightarrow> Stop e st
      | (Inr frameLen, br1) \<Rightarrow>
          if sint frameLen \<le> 0 \<or> maxFrame < sint frameLen then Stop (ErrInvalidFrameLength frameLen) st
          else
            (case ReadFull (unat frameLen) br1 of
               (Inl e, br2) \<Rightarrow> Stop e st
             | (Inr frame, br2) \<Rightarrow>
                 (let data = decode_frame cfg (compressionEnabled st) frame in
                  case readVarInt data of
                    (Inl e, pr) \<Rightarrow> Stop e st
                  | (Inr pid64, payload) \<Rightarrow>
                      (let pid = (ucast pid64 :: int32);
                           st1 = (if guessCompress cfg \<and> \<not> compressionEnabled st \<and> \<not> assumeNoCompress cfg
                                     \<and> snd (singleVarInt payload)
                                  then st\<lparr>compressionEnabled := True\<rparr> else st);
                           ts = clock cfg (ticks st1);
                           st2 = st1\<lparr>ticks := Suc (ticks st1)\<rparr>
                       in case WritePacket ts pid payload (writer st2) of
                            (Some e, w') \<Rightarrow> Stop e (st2\<lparr>writer := w'\<rparr>)
                          | (None, w') \<Rightarrow> Continue (st2\<lparr>writer := w'\<rparr>) br2))))"

text \<open>The variables of the loop after one turn, whether the loop goes on or returns.\<close>

fun state_of :: "step \<Rightarrow> parse_state" where
  "state_of (Stop e st) = st"
| "state_of (Continue st r) = st"

lemma readVarInt_Inr_shorter:
  assumes "readVarInt r = (Inr x, r')"
  shows "length r' < length r"
proof -
  from readVarInt_loop_value_bound [OF assms [unfolded readVarInt_def]]
  obtain k where "1 \<le> k" "length r = k + length r'" by auto
  then show ?thesis by simp
qed

lemma processFrame_Continue_shorter:
  assumes "processFrame cfg st br = Continue st' br'"
  shows "length br' < length br"
proof -
  from assms obtain frameLen br1 frame where
    rd: "readVarInt br = (Inr frameLen, br1)" and
    full: "ReadFull (unat frameLen) br1 = (Inr frame, br')"
    by (auto simp: processFrame_def Let_def split: prod.splits sum.splits if_splits option.splits)
  from full have "length br' \<le> length br1"
    by (auto simp: ReadFull_def split: if_splits)
  with readVarInt_Inr_shorter [OF rd] show ?thesis by simp
qed

text \<open>The loop of \<^verbatim>\<open>parseAndRecord\<close>. It ends with an error (the end of the stream is
  \<open>EOF\<close>); the result also shows the variables of the loop at that point.\<close>

function parseLoop :: "parse_cfg \<Rightarrow> parse_state \<Rightarrow> byte list \<Rightarrow> error \<times> parse_state" where
  "parseLoop cfg st br =
     (case processFrame cfg st br of
        Stop e st' \<Rightarrow> (e, st')
      | Continue st' br' \<Rightarrow> parseLoop cfg st' br')"
  by pat_completeness auto
termination
  by (relation "measure (\<lambda>(cfg, st, br). length br)")
     (auto dest: processFrame_Continue_shorter)

declare parseLoop.simps [simp del]

definition parseAndRecord :: "byte list \<Rightarrow> Writer \<Rightarrow> parse_cfg \<Rightarrow> int \<Rightarrow> error \<times> parse_state" where
  "parseAndRecord r w cfg forceThreshold =
     parseLoop cfg \<lparr>compressionEnabled = (0 \<le> forceThreshold), writer = w, ticks = 0\<rparr> r"

section \<open>Messages and the layout of the recording entry\<close>

type_synonym message = "uint32 \<times> int32 \<times> byte list"

text \<open>The loop of \<^verbatim>\<open>mcpr-create\<close>: the messages in order, stopping at the first error.\<close>

fun WritePackets :: "message list \<Rightarrow> Writer \<Rightarrow> error option \<times> Writer" where
  "WritePackets [] w = (None, w)"
| "WritePackets ((ts, pid, payload) # ms) w =
     (case WritePacket ts pid payload w of
        (Some e, w') \<Rightarrow> (Some e, w')
      | (None, w') \<Rightarrow> WritePackets ms w')"

text \<open>The layout of one message as the package documentation and the specification give
  it: \<^verbatim>\<open>[timeBE:int32][lenBE:int32][varint packetId][packet bytes]\<close>, the length counting the
  encoded id and the payload.\<close>

definition frame_layout :: "message \<Rightarrow> byte list" where
  "frame_layout m =
     (case m of (ts, pid, payload) \<Rightarrow>
        PutUint32 ts @ PutUint32 (of_nat (length (encodeVarInt pid) + length payload)) @
        encodeVarInt pid @ payload)"

lemma Uint32_Some_length: "Uint32 bs = Some v \<Longrightarrow> 4 \<le> length bs"
  by (cases bs rule: Uint32.cases) auto

text \<open>A reader of that layout: messages until the entry ends; \<open>None\<close> when a header or a
  message is cut short or the id is not a VarInt. The id is read as the recorder reads
  one, \<^verbatim>\<open>int32(readVarInt(...))\<close>.\<close>

function decode_recording :: "byte list \<Rightarrow> message list option" where
  "decode_recording bs =
     (if bs = [] then Some []
      else
        (case Uint32 bs of
           None \<Rightarrow> None
         | Some ts \<Rightarrow>
             (case Uint32 (drop 4 bs) of
                None \<Rightarrow> None
              | Some frameLength \<Rightarrow>
                  if length (drop 8 bs) < unat frameLength then None
                  else
                    (case readVarInt (take (unat frameLength) (drop 8 bs)) of
                       (Inl e, payload) \<Rightarrow> None
                     | (Inr pid64, payload) \<Rightarrow>
                         map_option ((#) (ts, ucast pid64, payload))
                           (decode_recording (drop (unat frameLength) (drop 8 bs)))))))"
  by pat_completeness auto
termination
  by (relation "measure length") (auto dest!: Uint32_Some_length)

declare decode_recording.simps [simp del]

section \<open>Example inputs\<close>

text \<open>The metadata \<^verbatim>\<open>mcpr-create\<close> passes with its default flags, a file that closes without
  error, and the writer \<^verbatim>\<open>Create\<close> returns for them on a sink that never fails.\<close>

definition example_meta :: Meta where
  "example_meta = \<lparr>Singleplayer = False, ServerName = [], CustomServerName = [], Duration = 0,
     Date = 0, MCVersion = [], FileFormat = [], FileFormatVersion = 0, Protocol = 754,
     Generator = ''mc-replay-go'', SelfID = 0, Players = []\<rparr>"

definition example_file :: os_File where
  "example_file = \<lparr>fname = ''example.mcpr'', close_fails = False\<rparr>"

definition example_writer :: Writer where
  "example_writer = projr (Create (Inr example_file) [] 1700000000000 example_meta)"

text \<open>That writer after a successful \<^verbatim>\<open>Close\<close>.\<close>

definition closed_writer :: Writer where
  "closed_writer = snd (Close example_writer)"

text \<open>A writer from \<^verbatim>\<open>NewWriter\<close> whose sink fails at its third operation: the write of
  the metadata entry.\<close>

definition failing_writer :: Writer where
  "failing_writer = projr (NewWriter [False, False, True] 1700000000000 example_meta)"

text \<open>The two messages of the README: \<^verbatim>\<open>--packet 0:0x26:0AFFEE --packet 1500:0x3A:DEADBEEF\<close>.\<close>

definition example_messages :: "message list" where
  "example_messages = [(0, 0x26, [0x0A, 0xFF, 0xEE]), (1500, 0x3A, [0xDE, 0xAD, 0xBE, 0xEF])]"

text \<open>A configuration of \<^verbatim>\<open>parseAndRecord\<close> with the heuristic on or off, a decompressor
  that fails on every input, and a clock that advances 100 ms per reading; and the
  variables of its loop before the first frame.\<close>

definition example_cfg :: "bool \<Rightarrow> parse_cfg" where
  "example_cfg guess =
     \<lparr>assumeNoCompress = False, guessCompress = guess, inflate = (\<lambda>bs. None),
      clock = (\<lambda>k. 100 * of_nat k)\<rparr>"

definition example_state :: "bool \<Rightarrow> parse_state" where
  "example_state enabled = \<lparr>compressionEnabled = enabled, writer = example_writer, ticks = 0\<rparr>"

text \<open>A source that delivers three chunks of one byte and then the end of the stream.\<close>

definition example_reads :: "(byte list \<times> error option) list" where
  "example_reads = [([0x01], None), ([0x02], None), ([0x03], None), ([], Some EOF)]"

text \<open>\<^verbatim>\<open>Create("/dev/null", meta)\<close>: the device accepts every write and closes without
  error; \<^verbatim>\<open>os.Stat\<close> reports size 0 for it and it does not open as an archive.\<close>

definition dev_null :: os_File where
  "dev_null = \<lparr>fname = ''/dev/null'', close_fails = False\<rparr>"

definition dev_null_writer :: Writer where
  "dev_null_writer = projr (Create (Inr dev_null) [] 1700000000000 example_meta)"

definition dev_null_info :: FileInfo where
  "dev_null_info = \<lparr>Size = 0, archive = None\<rparr>"

text \<open>A writer in its recording phase: open, its archive holding the recording entry
  alone, with chunks \<open>cs\<close> and still accepting writes, over a sink that will not fail.\<close>

definition recording :: "Writer \<Rightarrow> chunk list \<Rightarrow> bool" where
  "recording w cs \<longleftrightarrow>
     recw w = Some 0 \<and> \<not> closed w \<and> entries (zw w) = [(''recording.tmcpr'', cs)] \<and>
     last_open (zw w) \<and> \<not> zclosed (zw w) \<and> True \<notin> set (sink (zw w))"

section \<open>The VarInt codec: the claim\<close>

text \<open>
  Claim C5. For every \<^verbatim>\<open>int32\<close> value \<open>v\<close>, \<open>readVarInt\<close> reads the bytes of
  \<open>encodeVarInt v\<close> back: it returns the unsigned 32-bit pattern of \<open>v\<close> as an \<^verbatim>\<open>int64\<close>
  and leaves the rest of the input untouched, and the conversion \<^verbatim>\<open>int32(...)\<close> the recorder
  applies to it gives \<open>v\<close> again, negative values included. On any input \<open>readVarInt\<close>
  consumes a prefix of at most five bytes. The encoding has between one and five bytes,
  and it is minimal: no byte sequence that decodes to \<open>v\<close> is shorter. \<open>encodeVarInt\<close>
  is a total function with no error result.
\<close>

theorem varint_roundtrip_minimal:
  "readVarInt (encodeVarInt v @ rest) = (Inr (ucast v), rest) \<and>
   (ucast (ucast v :: int64) :: int32) = v \<and>
   (\<exists>c. r = c @ snd (readVarInt r) \<and> length c \<le> 5) \<and>
   1 \<le> length (encodeVarInt v) \<and> length (encodeVarInt v) \<le> 5 \<and>
   (\<forall>bs x rest'. readVarInt bs = (Inr x, rest') \<and> (ucast x :: int32) = v
      \<longrightarrow> length (encodeVarInt v) \<le> length bs - length rest')"
proof -
  have consumed: "\<exists>c. r = c @ snd (readVarInt r) \<and> length c \<le> 5"
    using readVarInt_loop_consumes [of 0 0 0 r "fst (readVarInt r)" "snd (readVarInt r)"]
    by (simp add: readVarInt_def)
  have len: "1 \<le> length (encodeVarInt v)" "length (encodeVarInt v) \<le> 5"
    using encodeVarInt_length_bounds [of v] encodeVarInt_length_le5 [of v]
    by (simp_all add: encodeVarInt_def)
  have minimal: "length (encodeVarInt v) \<le> length bs - length rest'"
    if "readVarInt bs = (Inr x, rest')" "(ucast x :: int32) = v" for bs x rest'
    using encodeVarInt_minimal [OF that(1)] that(2) by simp
  show ?thesis
    using readVarInt_encodeVarInt [of v rest] int32_of_ucast [of v] consumed len minimal
    by blast
qed

theorem varint_roundtrip_minimal_witness:
  "sint (4294967295 :: int32) = - 1 \<and>
   readVarInt (encodeVarInt 4294967295 @ [7]) = (Inr 4294967295, [7]) \<and>
   (ucast (4294967295 :: int64) :: int32) = 4294967295 \<and>
   length (encodeVarInt 4294967295) \<le> 5 \<and>
   readVarInt [0x80, 0x80, 0x00, 0x09] = (Inr 0, [9]) \<and>
   length (encodeVarInt 0) \<le> length [0x80, 0x80, 0x00, 0x09 :: byte] - length [9 :: byte]"
proof -
  have dec: "readVarInt [0x80, 0x80, 0x00, 0x09] = (Inr 0, [9])"
    by (simp add: readVarInt_def readVarInt_loop.simps)
  have z: "(ucast (0 :: int64) :: int32) = 0" by simp
  from varint_roundtrip_minimal [of 4294967295 "[7]" "[]"]
  have a: "readVarInt (encodeVarInt 4294967295 @ [7]) = (Inr (ucast (4294967295 :: int32)), [7])"
    and l: "length (encodeVarInt 4294967295) \<le> 5"
    by blast+
  from varint_roundtrip_minimal [of 0 "[]" "[]"] dec z
  have c: "length (encodeVarInt 0) \<le> length [0x80, 0x80, 0x00, 0x09 :: byte] - length [9 :: byte]"
    by blast
  show ?thesis using a c l dec by simp
qed

section \<open>The container writer: lemmas and claims\<close>

subsection \<open>The archive operations\<close>

lemma zip_Create_cases:
  assumes "zip_Create name z = (r, z')"
  shows "(r = Inl ErrSinkIO \<and> \<not> last_open z' \<and> entries z' = entries z \<and> zclosed z' = zclosed z) \<or>
         (r = Inr (length (entries z)) \<and> last_open z' \<and> entries z' = entries z @ [(name, [])]
            \<and> zclosed z' = zclosed z)"
  using assms
  by (auto simp: zip_Create_def sink_op_def Let_def split: list.splits if_splits)

lemma zip_entry_Write_cases:
  assumes "zip_entry_Write h c z = (r, z')"
  shows "length (entries z') = length (entries z) \<and> last_open z' = last_open z \<and>
         zclosed z' = zclosed z \<and> (r = None \<or> r = Some ErrSinkIO \<or> r = Some ErrZipEntryClosed)"
  using assms
  by (auto simp: zip_entry_Write_def sink_op_def Let_def split: list.splits if_splits)

lemma zip_entry_Write_closed:
  "\<not> (last_open z \<and> Suc h = length (entries z)) \<Longrightarrow>
   zip_entry_Write h c z = (Some ErrZipEntryClosed, z)"
  by (simp add: zip_entry_Write_def)

lemma zip_Close_cases:
  assumes "zip_Close z = (r, z')"
  shows "entries z' = entries z \<and> \<not> last_open z' \<and>
         (r = None \<longrightarrow> zclosed z') \<and>
         (r = None \<or> r = Some ErrSinkIO \<or> r = Some ErrZipClosedTwice)"
  using assms
  by (auto simp: zip_Close_def sink_op_def Let_def split: list.splits if_splits)

lemma put_entry_cases:
  assumes "put_entry name c w = (r, w')"
  shows "closed w' = closed w \<and> recw w' = recw w \<and> meta w' = meta w \<and> wfile w' = wfile w \<and>
         duration w' = duration w \<and> crc32 w' = crc32 w \<and>
         length (entries (zw w)) \<le> length (entries (zw w')) \<and>
         (\<not> last_open (zw w') \<or> length (entries (zw w)) < length (entries (zw w'))) \<and>
         r \<noteq> Some ErrFileClose"
proof (cases "zip_Create name (zw w)")
  case (Pair cr z)
  show ?thesis
  proof (cases cr)
    case (Inl e)
    with Pair assms zip_Create_cases [OF Pair] show ?thesis
      by (auto simp: put_entry_def)
  next
    case (Inr h)
    obtain r2 z2 where wr: "zip_entry_Write h c z = (r2, z2)" by (cases "zip_entry_Write h c z")
    from Pair Inr wr assms have "r = r2" "w' = w\<lparr>zw := z2\<rparr>"
      by (auto simp: put_entry_def)
    with zip_Create_cases [OF Pair] zip_entry_Write_cases [OF wr] Inr show ?thesis
      by auto
  qed
qed

lemma finalize_steps_cases:
  assumes fin: "finalize_steps w = (r, w')"
  shows "recw w' = recw w \<and> wfile w' = wfile w \<and> duration w' = duration w \<and>
         crc32 w' = crc32 w \<and> meta w' = final_meta w \<and>
         (rec < length (entries (zw w)) \<longrightarrow>
            rec < length (entries (zw w')) \<and>
            \<not> (last_open (zw w') \<and> Suc rec = length (entries (zw w')))) \<and>
         (r = None \<longrightarrow> closed w' \<and> zclosed (zw w')) \<and>
         (r \<noteq> None \<and> r \<noteq> Some ErrFileClose \<longrightarrow> closed w' = closed w) \<and>
         (r = Some ErrFileClose \<longrightarrow> closed w' \<and> zclosed (zw w'))"
proof -
  define w0 where "w0 = w\<lparr>meta := final_meta w\<rparr>"
  obtain r1 w1 where p1: "put_entry ''metaData.json'' (Doc (Marshal_Meta (meta w0))) w0 = (r1, w1)"
    by (cases "put_entry ''metaData.json'' (Doc (Marshal_Meta (meta w0))) w0")
  obtain r2 w2 where p2: "put_entry ''mods.json'' (Doc modsJSON) w1 = (r2, w2)"
    by (cases "put_entry ''mods.json'' (Doc modsJSON) w1")
  obtain r3 w3 where p3: "put_entry ''recording.tmcpr.crc32''
                          (Raw (bytes_of (decimal (unat (crc32 w2))))) w2 = (r3, w3)"
    by (cases "put_entry ''recording.tmcpr.crc32'' (Raw (bytes_of (decimal (unat (crc32 w2))))) w2")
  obtain r4 z4 where p4: "zip_Close (zw w3) = (r4, z4)" by (cases "zip_Close (zw w3)")
  note c1 = put_entry_cases [OF p1] and c2 = put_entry_cases [OF p2]
    and c3 = put_entry_cases [OF p3] and c4 = zip_Close_cases [OF p4]
  have w0: "closed w0 = closed w" "recw w0 = recw w" "wfile w0 = wfile w" "duration w0 = duration w"
    "crc32 w0 = crc32 w" "meta w0 = final_meta w" "zw w0 = zw w"
    by (simp_all add: w0_def)
  show ?thesis
  proof (cases r1)
    case (Some e)
    then have "r = r1" "w' = w1" using fin p1 by (simp_all add: finalize_steps_def w0_def Let_def)
    then show ?thesis using c1 w0 Some by auto
  next
    case n1: None
    show ?thesis
    proof (cases r2)
      case (Some e)
      then have "r = r2" "w' = w2"
        using fin p1 p2 n1 by (simp_all add: finalize_steps_def w0_def Let_def)
      then show ?thesis using c1 c2 w0 Some by auto
    next
      case n2: None
      show ?thesis
      proof (cases r3)
        case (Some e)
        then have "r = r3" "w' = w3"
          using fin p1 p2 p3 n1 n2 by (simp_all add: finalize_steps_def w0_def Let_def)
        then show ?thesis using c1 c2 c3 w0 Some by auto
      next
        case n3: None
        show ?thesis
        proof (cases r4)
          case (Some e)
          then have "r = r4" "w' = w3\<lparr>zw := z4\<rparr>"
            using fin p1 p2 p3 p4 n1 n2 n3 by (simp_all add: finalize_steps_def w0_def Let_def)
          then show ?thesis using c1 c2 c3 c4 w0 Some by auto
        next
          case n4: None
          have "w' = w3\<lparr>zw := z4, closed := True\<rparr>"
               "r = None \<or> r = Some ErrFileClose"
            using fin p1 p2 p3 p4 n1 n2 n3 n4
            by (auto simp: finalize_steps_def w0_def Let_def split: option.splits if_splits)
          then show ?thesis using c1 c2 c3 c4 w0 n4 by auto
        qed
      qed
    qed
  qed
qed

lemmas writer_eval =
  NewWriter_def Create_def zip_Create_def sink_op_def Close_def finalize_steps_def final_meta_def
  put_entry_def zip_entry_Write_def zip_Close_def Let_def CurrentFileFormatVersion_def
  WritePacket_def recw_Write_def

subsection \<open>Close\<close>

text \<open>
  Claim C9. \<^verbatim>\<open>Close\<close> (finalize) is idempotent: once a call has returned success, a second
  call returns success and changes nothing, so the writer and the archive after two calls
  are those after one.
\<close>

theorem Close_idempotent:
  "fst (Close w) = None \<Longrightarrow> Close (snd (Close w)) = (None, snd (Close w))"
proof (cases "closed w")
  case True
  then show ?thesis by (simp add: Close_def)
next
  case False
  assume ok: "fst (Close w) = None"
  obtain w' where fin: "finalize_steps w = (None, w')"
    using ok False by (cases "finalize_steps w") (simp add: Close_def)
  from finalize_steps_cases [OF fin] have "closed w'" by simp
  then show ?thesis using fin False by (simp add: Close_def)
qed

theorem Close_idempotent_witness:
  "fst (Close example_writer) = None \<and>
   Close (snd (Close example_writer)) = (None, snd (Close example_writer)) \<and>
   map fst (entries (zw (snd (Close example_writer)))) =
     [''recording.tmcpr'', ''metaData.json'', ''mods.json'', ''recording.tmcpr.crc32'']"
proof -
  have ok: "fst (Close example_writer) = None"
    by (simp add: example_writer_def example_file_def example_meta_def writer_eval)
  have names: "map fst (entries (zw (snd (Close example_writer)))) =
     [''recording.tmcpr'', ''metaData.json'', ''mods.json'', ''recording.tmcpr.crc32'']"
    by (simp add: example_writer_def example_file_def example_meta_def writer_eval)
  from Close_idempotent [OF ok] ok names show ?thesis by simp
qed

lemma NewWriter_handle:
  "NewWriter out now meta0 = Inr w \<Longrightarrow> recw w = Some 0 \<and> 0 < length (entries (zw w)) \<and> \<not> closed w"
  by (auto simp: NewWriter_def zip_Create_def sink_op_def Let_def
      split: prod.splits sum.splits list.splits if_splits)

lemma Create_handle:
  "Create opened out now meta0 = Inr w \<Longrightarrow> recw w = Some 0 \<and> 0 < length (entries (zw w)) \<and> \<not> closed w"
  by (auto simp: Create_def split: sum.splits dest: NewWriter_handle)

lemma recw_Write_handle:
  "recw_Write h p w = (r, w') \<Longrightarrow>
   recw w' = recw w \<and> closed w' = closed w \<and> length (entries (zw w')) = length (entries (zw w))"
  by (auto simp: recw_Write_def split: prod.splits option.splits dest: zip_entry_Write_cases)

lemma WritePacket_handle:
  assumes "WritePacket ts pid p w = (r, w')"
  shows "recw w' = recw w \<and> closed w' = closed w \<and> length (entries (zw w')) = length (entries (zw w))"
proof (cases "recw w")
  case None
  then show ?thesis using assms by (simp add: WritePacket_def)
next
  case (Some rec)
  show ?thesis
  proof (cases "closed w")
    case True
    then show ?thesis using assms Some by (simp add: WritePacket_def)
  next
    case False
    let ?hdr = "PutUint32 ts @ PutUint32 (of_nat (length (encodeVarInt pid) + length p))"
    obtain r1 w1 where s1: "recw_Write rec ?hdr w = (r1, w1)" by (cases "recw_Write rec ?hdr w")
    obtain r2 w2 where s2: "recw_Write rec (encodeVarInt pid) w1 = (r2, w2)"
      by (cases "recw_Write rec (encodeVarInt pid) w1")
    obtain r3 w3 where s3: "recw_Write rec p w2 = (r3, w3)" by (cases "recw_Write rec p w2")
    note h = recw_Write_handle [OF s1] recw_Write_handle [OF s2] recw_Write_handle [OF s3]
    show ?thesis
      using assms Some False s1 s2 s3 h
      by (auto simp: WritePacket_def Let_def split: option.splits if_splits)
  qed
qed

text \<open>
  Claim C10. When \<^verbatim>\<open>Close\<close> returns an error from creating an entry, from a write or from
  closing the archive (any error but that of closing the file under it), the writer is not
  marked closed. A following \<^verbatim>\<open>WritePacket\<close> then does not answer "writer closed": it
  goes on to the write to the recording entry, which the archive refuses because that
  entry no longer accepts writes. A following \<^verbatim>\<open>Close\<close> runs the finalization steps again
  instead of returning at once. The \<^verbatim>\<open>closed\<close> flag is set only once the archive's own close
  has succeeded. The writer's handle \<open>rec\<close> names an entry of its archive, as it does for
  every writer \<^verbatim>\<open>NewWriter\<close> returns.
\<close>

theorem Close_failure_leaves_writer_open:
  assumes "Close w = (Some e, w')"
    and "e \<noteq> ErrFileClose"
    and "recw w = Some rec" and "rec < length (entries (zw w))"
  shows "\<not> closed w' \<and>
         WritePacket ts pid payload w' = (Some ErrZipEntryClosed, w') \<and>
         Close w' = finalize_steps w' \<and>
         (closed (snd (Close w')) \<longrightarrow> zclosed (zw (snd (Close w'))) \<and>
            (fst (Close w') = None \<or> fst (Close w') = Some ErrFileClose))"
proof -
  have open_before: "\<not> closed w" using assms(1) by (auto simp: Close_def split: if_splits)
  then have fin: "finalize_steps w = (Some e, w')" using assms(1) by (simp add: Close_def)
  note c = finalize_steps_cases [OF fin, of rec]
  have still_open: "\<not> closed w'" using c assms(2) open_before by simp
  have rec': "recw w' = Some rec" using c assms(3) by simp
  have shut: "\<not> (last_open (zw w') \<and> Suc rec = length (entries (zw w')))"
    using c assms(4) by simp
  have wp: "WritePacket ts pid payload w' = (Some ErrZipEntryClosed, w')"
    using still_open rec' zip_entry_Write_closed [OF shut]
    by (simp add: WritePacket_def recw_Write_def Let_def)
  have again: "Close w' = finalize_steps w'" using still_open by (simp add: Close_def)
  obtain r2 w2 where fin2: "finalize_steps w' = (r2, w2)" by (cases "finalize_steps w'")
  have late: "closed w2 \<longrightarrow> zclosed (zw w2) \<and> (r2 = None \<or> r2 = Some ErrFileClose)"
    using finalize_steps_cases [OF fin2, of rec] still_open by auto
  show ?thesis using still_open wp again late fin2 by simp
qed

theorem Close_failure_leaves_writer_open_witness:
  "fst (Close failing_writer) = Some ErrSinkIO \<and>
   \<not> closed (snd (Close failing_writer)) \<and>
   WritePacket 5 1 [] (snd (Close failing_writer)) =
     (Some ErrZipEntryClosed, snd (Close failing_writer)) \<and>
   Close (snd (Close failing_writer)) = finalize_steps (snd (Close failing_writer)) \<and>
   fst (Close (snd (Close failing_writer))) = None \<and>
   closed (snd (Close (snd (Close failing_writer)))) \<and>
   zclosed (zw (snd (Close (snd (Close failing_writer))))) \<and>
   map fst (entries (zw (snd (Close (snd (Close failing_writer)))))) =
     [''recording.tmcpr'', ''metaData.json'', ''metaData.json'', ''mods.json'',
      ''recording.tmcpr.crc32'']"
proof -
  have f1: "fst (Close failing_writer) = Some ErrSinkIO"
    by (simp add: failing_writer_def example_meta_def writer_eval)
  then have fails: "Close failing_writer = (Some ErrSinkIO, snd (Close failing_writer))"
    by (cases "Close failing_writer") simp
  have rec: "recw failing_writer = Some 0" "0 < length (entries (zw failing_writer))"
    by (simp_all add: failing_writer_def example_meta_def writer_eval)
  have second: "fst (Close (snd (Close failing_writer))) = None"
    "closed (snd (Close (snd (Close failing_writer))))"
    by (simp_all add: failing_writer_def example_meta_def writer_eval)
  have names: "map fst (entries (zw (snd (Close (snd (Close failing_writer)))))) =
     [''recording.tmcpr'', ''metaData.json'', ''metaData.json'', ''mods.json'',
      ''recording.tmcpr.crc32'']"
    by (simp add: failing_writer_def example_meta_def writer_eval)
  have ne: "ErrSinkIO \<noteq> ErrFileClose" by simp
  note t = Close_failure_leaves_writer_open [OF fails ne rec, of 5 1 "[]"]
  from t second(2) have z: "zclosed (zw (snd (Close (snd (Close failing_writer)))))" by blast
  show ?thesis using t z f1 second names by blast
qed

text \<open>
  Claim C1 (the code departs from it). The claim: after \<^verbatim>\<open>Close\<close> has written the metadata,
  mods and checksum entries and closed the archive, it runs a structural self-check of the
  file just written and returns a failure of that check to its caller. \<^verbatim>\<open>Close\<close> as written
  ends with the close of the archive and of the file; \<^verbatim>\<open>ValidateFile\<close> is called neither by
  it nor by \<^verbatim>\<open>Recorder.Close\<close>. For a writer created on \<^verbatim>\<open>/dev/null\<close> both return success,
  while \<^verbatim>\<open>ValidateFile\<close> on that path fails with "replay file is empty (0 bytes)", the failure
  that the finalize of the claim would return.
\<close>

theorem Close_runs_no_self_check:
  "fst (Close dev_null_writer) = None \<and> closed (snd (Close dev_null_writer)) \<and>
   fst (ValidateFile unmarshal (Some dev_null_info)) = Some ErrEmptyFile \<and>
   fst (finalize_with_self_check unmarshal (Some dev_null_info) dev_null_writer) =
     Some ErrEmptyFile \<and>
   fst (Recorder_Close (Recorder_New dev_null_writer)) = None"
proof -
  have c: "fst (Close dev_null_writer) = None" "closed (snd (Close dev_null_writer))"
    by (simp_all add: dev_null_writer_def dev_null_def example_meta_def writer_eval)
  have v: "fst (ValidateFile unmarshal (Some dev_null_info)) = Some ErrEmptyFile"
    by (simp add: ValidateFile_def dev_null_info_def)
  have n: "\<not> closed dev_null_writer"
    by (simp add: dev_null_writer_def dev_null_def example_meta_def writer_eval)
  show ?thesis
    using c v n by (auto simp: finalize_with_self_check_def Recorder_Close_def Recorder_New_def
        split: prod.splits)
qed

subsection \<open>SetSelfID and AddPlayer after Close\<close>

text \<open>
  Claim C3 as stated fails on the \<^verbatim>\<open>Writer\<close>: its \<^verbatim>\<open>SetSelfID\<close> and \<^verbatim>\<open>AddPlayer\<close> have no
  guard. On the example writer, closed with success, \<^verbatim>\<open>SetSelfID 7\<close> changes the self id from
  0 to 7 and \<^verbatim>\<open>AddPlayer\<close> adds the UUID to the empty player list.
\<close>

theorem SetSelfID_after_Close_counterexample:
  "fst (Close example_writer) = None \<and> closed closed_writer \<and>
   SelfID (meta closed_writer) = 0 \<and> SelfID (meta (SetSelfID 7 closed_writer)) = 7 \<and>
   Players (meta closed_writer) = [] \<and>
   Players (meta (AddPlayer ''069a79f4-44e9-4726-a5be-fca90e38aaf5'' closed_writer)) =
     [''069a79f4-44e9-4726-a5be-fca90e38aaf5'']"
  by (simp add: closed_writer_def example_writer_def example_file_def example_meta_def writer_eval
      SetSelfID_def AddPlayer_def)

text \<open>
  Claim C3, as amended. Once \<^verbatim>\<open>Close\<close> of the \<^verbatim>\<open>Recorder\<close> facade has been called, the
  facade's \<^verbatim>\<open>SetSelfID\<close> and \<^verbatim>\<open>AddPlayer\<close> are no-ops: the recorder, and with it the writer
  and its metadata, stay as they are. The \<^verbatim>\<open>Writer\<close>'s own \<^verbatim>\<open>SetSelfID\<close> and \<^verbatim>\<open>AddPlayer\<close>
  are not guarded; whenever they are called they leave the archive and the \<^verbatim>\<open>closed\<close> flag
  alone, and on a closed writer a later \<^verbatim>\<open>Close\<close> is still a no-op, so the file written
  does not change.
\<close>

theorem Recorder_setters_after_Close:
  "rclosed (snd (Recorder_Close r)) \<and>
   Recorder_SetSelfID eid (snd (Recorder_Close r)) = snd (Recorder_Close r) \<and>
   Recorder_AddPlayer uuid (snd (Recorder_Close r)) = snd (Recorder_Close r) \<and>
   zw (SetSelfID eid w) = zw w \<and> zw (AddPlayer uuid w) = zw w \<and>
   closed (SetSelfID eid w) = closed w \<and> closed (AddPlayer uuid w) = closed w \<and>
   (closed w \<longrightarrow> Close (SetSelfID eid w) = (None, SetSelfID eid w) \<and>
                 Close (AddPlayer uuid w) = (None, AddPlayer uuid w))"
proof -
  have c: "rclosed (snd (Recorder_Close r))"
    by (simp add: Recorder_Close_def split: prod.splits)
  then show ?thesis
    by (simp add: Recorder_SetSelfID_def Recorder_AddPlayer_def SetSelfID_def AddPlayer_def Close_def)
qed

theorem Recorder_setters_after_Close_witness:
  "rclosed (snd (Recorder_Close (Recorder_New example_writer))) \<and>
   Recorder_SetSelfID 7 (snd (Recorder_Close (Recorder_New example_writer))) =
     snd (Recorder_Close (Recorder_New example_writer)) \<and>
   Recorder_AddPlayer ''069a79f4-44e9-4726-a5be-fca90e38aaf5''
       (snd (Recorder_Close (Recorder_New example_writer))) =
     snd (Recorder_Close (Recorder_New example_writer)) \<and>
   closed closed_writer \<and>
   Close (SetSelfID 7 closed_writer) = (None, SetSelfID 7 closed_writer) \<and>
   zw (SetSelfID 7 closed_writer) = zw closed_writer"
proof -
  have c: "closed closed_writer"
    by (simp add: closed_writer_def example_writer_def example_file_def example_meta_def writer_eval)
  from Recorder_setters_after_Close [of "Recorder_New example_writer" 7
      "''069a79f4-44e9-4726-a5be-fca90e38aaf5''" closed_writer] c
  show ?thesis by simp
qed

subsection \<open>The recording entry\<close>

lemma Uint32_PutUint32: "Uint32 (PutUint32 v @ rest) = Some v"
proof -
  have "push_bit 24 (ucast (ucast (drop_bit 24 v) :: byte)) OR
        push_bit 16 (ucast (ucast (drop_bit 16 v) :: byte)) OR
        push_bit 8 (ucast (ucast (drop_bit 8 v) :: byte)) OR
        ucast (ucast v :: byte) = v"
  proof (rule bit_word_eqI)
    fix n
    assume n: "n < LENGTH(32)"
    have a: "24 + (n - 24) = n" if "24 \<le> n" using that by simp
    have b: "16 + (n - 16) = n" if "16 \<le> n" using that by simp
    have c: "8 + (n - 8) = n" if "8 \<le> n" using that by simp
    consider "n < 8" | "8 \<le> n" "n < 16" | "16 \<le> n" "n < 24" | "24 \<le> n"
      by linarith
    then show "bit (push_bit 24 (ucast (ucast (drop_bit 24 v) :: byte)) OR
        push_bit 16 (ucast (ucast (drop_bit 16 v) :: byte)) OR
        push_bit 8 (ucast (ucast (drop_bit 8 v) :: byte)) OR
        (ucast (ucast v :: byte) :: uint32)) n = bit v n"
      using n a b c by cases (auto simp: bit_simps)
  qed
  then show ?thesis by (simp add: PutUint32_def)
qed

lemma length_PutUint32 [simp]: "length (PutUint32 v) = 4"
  by (simp add: PutUint32_def)

lemma crc32_Update_append: "crc32_Update (crc32_Update c a) b = crc32_Update c (a @ b)"
  by (simp add: crc32_Update_def)

lemma raw_bytes_snoc: "raw_bytes (cs @ [Raw a]) = map_option (\<lambda>bs. bs @ a) (raw_bytes cs)"
  by (induction cs rule: raw_bytes.induct) (auto simp: option.map_comp comp_def)

lemma sink_op_ok: "True \<notin> set (sink z) \<Longrightarrow> sink_op z = (False, z\<lparr>sink := tl (sink z)\<rparr>)"
  by (cases "sink z") (auto simp: sink_op_def)

lemma no_fault_tl: "True \<notin> set xs \<Longrightarrow> True \<notin> set (tl xs)"
  by (cases xs) auto

lemma recw_Write_recording:
  assumes "recording w cs"
  shows "\<exists>w'. recw_Write 0 p w = (None, w') \<and> recording w' (cs @ [Raw p]) \<and>
           meta w' = meta w \<and> wfile w' = wfile w \<and> duration w' = duration w \<and>
           crc32 w' = crc32_Update (crc32 w) p"
  using assms
  by (simp add: recording_def recw_Write_def zip_entry_Write_def sink_op_ok no_fault_tl)

lemma WritePacket_recording:
  assumes "recording w cs"
  shows "\<exists>w'. WritePacket ts pid p w = (None, w') \<and>
           recording w' (cs @ [Raw (PutUint32 ts @
                PutUint32 (of_nat (length (encodeVarInt pid) + length p))),
              Raw (encodeVarInt pid), Raw p]) \<and>
           meta w' = meta w \<and> wfile w' = wfile w \<and> duration w' = max (duration w) ts \<and>
           crc32 w' = crc32_Update (crc32 w) (frame_layout (ts, pid, p))"
proof -
  let ?hdr = "PutUint32 ts @ PutUint32 (of_nat (length (encodeVarInt pid) + length p))"
  from recw_Write_recording [OF assms, of ?hdr] obtain w1 where
    w1: "recw_Write 0 ?hdr w = (None, w1)" "recording w1 (cs @ [Raw ?hdr])"
      "meta w1 = meta w" "wfile w1 = wfile w" "duration w1 = duration w"
      "crc32 w1 = crc32_Update (crc32 w) ?hdr" by blast
  from recw_Write_recording [OF w1(2), of "encodeVarInt pid"] obtain w2 where
    w2: "recw_Write 0 (encodeVarInt pid) w1 = (None, w2)"
      "recording w2 ((cs @ [Raw ?hdr]) @ [Raw (encodeVarInt pid)])"
      "meta w2 = meta w1" "wfile w2 = wfile w1" "duration w2 = duration w1"
      "crc32 w2 = crc32_Update (crc32 w1) (encodeVarInt pid)" by blast
  from recw_Write_recording [OF w2(2), of p] obtain w3 where
    w3: "recw_Write 0 p w2 = (None, w3)"
      "recording w3 (((cs @ [Raw ?hdr]) @ [Raw (encodeVarInt pid)]) @ [Raw p])"
      "meta w3 = meta w2" "wfile w3 = wfile w2" "duration w3 = duration w2"
      "crc32 w3 = crc32_Update (crc32 w2) p" by blast
  let ?w' = "if duration w3 < ts then w3\<lparr>duration := ts\<rparr> else w3"
  have wp: "WritePacket ts pid p w = (None, ?w')"
    using assms w1(1) w2(1) w3(1) by (simp add: WritePacket_def recording_def Let_def)
  have rec': "recording ?w' (cs @ [Raw ?hdr, Raw (encodeVarInt pid), Raw p])"
    using w3(2) by (simp add: recording_def)
  have crc: "crc32 ?w' = crc32_Update (crc32 w) (frame_layout (ts, pid, p))"
    using w1(6) w2(6) w3(6) by (simp add: crc32_Update_append frame_layout_def)
  have dur: "duration ?w' = max (duration w) ts"
    using w1(5) w2(5) w3(5) by (auto simp: max_def)
  have "meta ?w' = meta w" "wfile ?w' = wfile w"
    using w1 w2 w3 by simp_all
  with wp rec' crc dur show ?thesis by blast
qed

lemma WritePackets_recording:
  assumes "recording w cs" "raw_bytes cs = Some bs"
  shows "\<exists>w' cs'. WritePackets msgs w = (None, w') \<and> recording w' cs' \<and>
           raw_bytes cs' = Some (bs @ concat (map frame_layout msgs)) \<and>
           meta w' = meta w \<and> wfile w' = wfile w \<and>
           duration w' = fold max (map fst msgs) (duration w) \<and>
           crc32 w' = crc32_Update (crc32 w) (concat (map frame_layout msgs))"
  using assms
proof (induction msgs arbitrary: w cs bs)
  case Nil
  then show ?case by (auto simp: crc32_Update_def)
next
  case (Cons m msgs)
  obtain ts pid p where m: "m = (ts, pid, p)" by (cases m)
  let ?cs1 = "cs @ [Raw (PutUint32 ts @ PutUint32 (of_nat (length (encodeVarInt pid) + length p))),
              Raw (encodeVarInt pid), Raw p]"
  from WritePacket_recording [OF Cons.prems(1), of ts pid p] obtain w1 where
    w1: "WritePacket ts pid p w = (None, w1)" "recording w1 ?cs1"
      "meta w1 = meta w" "wfile w1 = wfile w" "duration w1 = max (duration w) ts"
      "crc32 w1 = crc32_Update (crc32 w) (frame_layout (ts, pid, p))" by blast
  have "?cs1 = ((cs @ [Raw (PutUint32 ts @ PutUint32 (of_nat (length (encodeVarInt pid) + length p)))])
              @ [Raw (encodeVarInt pid)]) @ [Raw p]" by simp
  then have rb: "raw_bytes ?cs1 = Some (bs @ frame_layout (ts, pid, p))"
    using Cons.prems(2) by (simp only: raw_bytes_snoc) (simp add: frame_layout_def)
  from Cons.IH [OF w1(2) rb] obtain w' cs' where
    w': "WritePackets msgs w1 = (None, w')" "recording w' cs'"
      "raw_bytes cs' = Some ((bs @ frame_layout (ts, pid, p)) @ concat (map frame_layout msgs))"
      "meta w' = meta w1" "wfile w' = wfile w1"
      "duration w' = fold max (map fst msgs) (duration w1)"
      "crc32 w' = crc32_Update (crc32 w1) (concat (map frame_layout msgs))" by blast
  have "WritePackets (m # msgs) w = (None, w')" using m w1(1) w'(1) by simp
  moreover have "raw_bytes cs' = Some (bs @ concat (map frame_layout (m # msgs)))"
    using w'(3) m by simp
  moreover have "duration w' = fold max (map fst (m # msgs)) (duration w)"
    using w'(6) w1(5) m by (simp add: max.commute)
  moreover have "crc32 w' = crc32_Update (crc32 w) (concat (map frame_layout (m # msgs)))"
    using w'(7) w1(6) m by (simp add: crc32_Update_append)
  ultimately show ?case using w'(2,4,5) w1(3,4) by auto
qed

lemma decode_recording_frame:
  assumes "length (encodeVarInt pid) + length p < 2 ^ 32"
  shows "decode_recording (frame_layout (ts, pid, p) @ rest) =
         map_option ((#) (ts, pid, p)) (decode_recording rest)"
proof -
  let ?n = "length (encodeVarInt pid) + length p"
  let ?bs = "frame_layout (ts, pid, p) @ rest"
  have bs: "?bs = PutUint32 ts @ (PutUint32 (of_nat ?n) @ (encodeVarInt pid @ p) @ rest)"
    by (simp add: frame_layout_def)
  have ne: "?bs \<noteq> []" by (simp add: frame_layout_def PutUint32_def)
  have t: "Uint32 ?bs = Some ts" unfolding bs by (rule Uint32_PutUint32)
  have d4: "drop 4 ?bs = PutUint32 (of_nat ?n) @ (encodeVarInt pid @ p) @ rest"
    unfolding bs by simp
  have l: "Uint32 (drop 4 ?bs) = Some (of_nat ?n)" unfolding d4 by (rule Uint32_PutUint32)
  have n: "unat (of_nat ?n :: uint32) = ?n"
    using assms by (intro of_nat_inverse [OF refl]) simp
  have d8: "drop 8 ?bs = (encodeVarInt pid @ p) @ rest"
    unfolding bs by simp
  have rd: "readVarInt (take ?n (drop 8 ?bs)) = (Inr (ucast pid), p)"
    unfolding d8 using readVarInt_encodeVarInt [of pid p] by simp
  have rest: "drop ?n (drop 8 ?bs) = rest" unfolding d8 by simp
  have len: "\<not> length (drop 8 ?bs) < ?n" unfolding d8 by simp
  show ?thesis
    by (subst decode_recording.simps)
       (simp only: ne t l n rd rest len int32_of_ucast if_False option.case prod.case sum.case)
qed

lemma decode_recording_layout:
  assumes "\<forall>m \<in> set msgs. length (encodeVarInt (fst (snd m))) + length (snd (snd m)) < 2 ^ 32"
  shows "decode_recording (concat (map frame_layout msgs)) = Some msgs"
  using assms
proof (induction msgs)
  case Nil
  then show ?case by (subst decode_recording.simps) simp
next
  case (Cons m msgs)
  obtain ts pid p where m: "m = (ts, pid, p)" by (cases m)
  have "length (encodeVarInt pid) + length p < 2 ^ 32" using Cons.prems m by simp
  from decode_recording_frame [OF this, of ts "concat (map frame_layout msgs)"] Cons
  show ?case by (simp add: m)
qed

lemma Close_recording:
  assumes "recording w cs" "case wfile w of None \<Rightarrow> True | Some f \<Rightarrow> \<not> close_fails f"
  shows "\<exists>w'. Close w = (None, w') \<and> closed w' \<and> meta w' = final_meta w \<and>
           entries (zw w') =
             [(''recording.tmcpr'', cs),
              (''metaData.json'', [Doc (Marshal_Meta (final_meta w))]),
              (''mods.json'', [Doc modsJSON]),
              (''recording.tmcpr.crc32'', [Raw (bytes_of (decimal (unat (crc32 w))))])]"
  using assms
  by (auto simp: recording_def Close_def finalize_steps_def put_entry_def zip_Create_def
        zip_entry_Write_def zip_Close_def sink_op_ok no_fault_tl Let_def
      split: option.splits)

lemma NewWriter_recording:
  assumes "NewWriter out now meta0 = Inr w" "True \<notin> set out"
  shows "recording w [] \<and> duration w = 0 \<and> crc32 w = 0"
  using assms
  by (auto simp: NewWriter_def zip_Create_def sink_op_ok no_fault_tl recording_def Let_def
      split: sum.splits prod.splits if_splits)

lemma Create_recording:
  assumes "Create opened out now meta0 = Inr w" "True \<notin> set out"
  shows "recording w [] \<and> duration w = 0 \<and> crc32 w = 0"
proof -
  from assms(1) obtain f w' where "NewWriter out now meta0 = Inr w'" "w = w'\<lparr>wfile := Some f\<rparr>"
    by (auto simp: Create_def split: sum.splits)
  with NewWriter_recording [OF this(1) assms(2)] show ?thesis
    by (simp add: recording_def)
qed

lemma fold_max_Max:
  fixes xs :: "uint32 list"
  shows "fold max xs 0 = Max (insert 0 (set xs))"
  using Max.set_eq_fold [of 0 xs] by simp

text \<open>
  Claim C4. Take a writer from \<^verbatim>\<open>NewWriter\<close> or \<^verbatim>\<open>Create\<close> over a sink and a file that do not fail, and
  messages whose encoded id and payload together fit the 4-byte length field. Writing the
  messages with \<^verbatim>\<open>WritePacket\<close>, in order, succeeds, and the bytes of the recording entry
  are exactly the concatenation, in write order, of
  \<^verbatim>\<open>[timestamp: 4 bytes big-endian][length of encoded id and payload: 4 bytes big-endian]\<close>
  \<^verbatim>\<open>[VarInt id][payload]\<close>. Reading that entry back gives the same messages in the same
  order. \<^verbatim>\<open>Close\<close> then succeeds; the archive holds the recording, the metadata, the mods
  descriptor and the CRC-32 of the recording as decimal text, in this order; and the
  duration in the metadata is the largest timestamp written (0 when there is none): 1500
  for the two example messages.
\<close>

theorem recording_roundtrip:
  assumes "NewWriter out now meta0 = Inr w0 \<or> Create opened out now meta0 = Inr w0"
    and "case wfile w0 of None \<Rightarrow> True | Some f \<Rightarrow> \<not> close_fails f"
    and "True \<notin> set out"
    and "\<forall>m \<in> set msgs. length (encodeVarInt (fst (snd m))) + length (snd (snd m)) < 2 ^ 32"
    and "WritePackets msgs w0 = (e1, w1)" "Close w1 = (e2, w2)"
  shows "e1 = None \<and> e2 = None \<and>
         (\<exists>cs. raw_bytes cs = Some (concat (map frame_layout msgs)) \<and>
            entries (zw w1) = [(''recording.tmcpr'', cs)] \<and>
            entries (zw w2) =
              [(''recording.tmcpr'', cs),
               (''metaData.json'', [Doc (Marshal_Meta (meta w2))]),
               (''mods.json'', [Doc modsJSON]),
               (''recording.tmcpr.crc32'',
                  [Raw (bytes_of (decimal (unat (crc32_Update 0 (concat (map frame_layout msgs))))))])]) \<and>
         decode_recording (concat (map frame_layout msgs)) = Some msgs \<and>
         Duration (meta w2) = uint (Max (insert 0 (fst ` set msgs)))"
proof -
  have w0: "recording w0 []" "duration w0 = 0" "crc32 w0 = 0"
    using assms(1) NewWriter_recording [OF _ assms(3)] Create_recording [OF _ assms(3)]
    by blast+
  have "raw_bytes [] = Some []" by simp
  from WritePackets_recording [OF w0(1) this, of msgs] assms(5) obtain cs where
    w1: "e1 = None" "recording w1 cs" "raw_bytes cs = Some (concat (map frame_layout msgs))"
      "wfile w1 = wfile w0" "duration w1 = fold max (map fst msgs) (duration w0)"
      "crc32 w1 = crc32_Update (crc32 w0) (concat (map frame_layout msgs))"
    by auto
  have "case wfile w1 of None \<Rightarrow> True | Some f \<Rightarrow> \<not> close_fails f"
    using w1(4) assms(2) by simp
  from Close_recording [OF w1(2) this] assms(6)
  have w2: "e2 = None" "meta w2 = final_meta w1"
    "entries (zw w2) =
       [(''recording.tmcpr'', cs),
        (''metaData.json'', [Doc (Marshal_Meta (final_meta w1))]),
        (''mods.json'', [Doc modsJSON]),
        (''recording.tmcpr.crc32'', [Raw (bytes_of (decimal (unat (crc32 w1))))])]"
    by auto
  have dur: "Duration (meta w2) = uint (Max (insert 0 (fst ` set msgs)))"
    using w2(2) w1(5) w0(2) fold_max_Max [of "map fst msgs"]
    by (simp add: final_meta_def Let_def)
  have ent: "entries (zw w1) = [(''recording.tmcpr'', cs)]"
    using w1(2) by (simp add: recording_def)
  show ?thesis
    using w1(1,3,6) w2 w0(3) dur ent decode_recording_layout [OF assms(4)] by auto
qed

theorem recording_roundtrip_witness:
  "fst (WritePackets example_messages example_writer) = None \<and>
   fst (Close (snd (WritePackets example_messages example_writer))) = None \<and>
   concat (map frame_layout example_messages) =
     [0, 0, 0, 0, 0, 0, 0, 4, 0x26, 0x0A, 0xFF, 0xEE,
      0, 0, 0x05, 0xDC, 0, 0, 0, 5, 0x3A, 0xDE, 0xAD, 0xBE, 0xEF] \<and>
   decode_recording (concat (map frame_layout example_messages)) = Some example_messages \<and>
   Duration (meta (snd (Close (snd (WritePackets example_messages example_writer))))) = 1500"
proof -
  have "Create (Inr example_file) [] 1700000000000 example_meta = Inr example_writer"
    by (simp add: example_writer_def Create_def NewWriter_def zip_Create_def sink_op_def Let_def)
  then have cr: "NewWriter [] 1700000000000 example_meta = Inr example_writer \<or>
      Create (Inr example_file) [] 1700000000000 example_meta = Inr example_writer" ..
  have nf: "case wfile example_writer of None \<Rightarrow> True | Some f \<Rightarrow> \<not> close_fails f"
      "True \<notin> set []"
    by (simp_all add: example_writer_def example_file_def Create_def NewWriter_def zip_Create_def
        sink_op_def Let_def)
  have enc: "encodeVarInt 0x26 = [0x26]" "encodeVarInt 0x3A = [0x3A]"
    by (simp_all add: encodeVarInt_def encodeVarInt_loop.simps)
  have bound: "\<forall>m \<in> set example_messages.
      length (encodeVarInt (fst (snd m))) + length (snd (snd m)) < 2 ^ 32"
    by (simp add: example_messages_def enc)
  have bytes: "concat (map frame_layout example_messages) =
     [0, 0, 0, 0, 0, 0, 0, 4, 0x26, 0x0A, 0xFF, 0xEE,
      0, 0, 0x05, 0xDC, 0, 0, 0, 5, 0x3A, 0xDE, 0xAD, 0xBE, 0xEF]"
    by (simp add: example_messages_def frame_layout_def enc PutUint32_def)
  have mx: "uint (Max (insert 0 (fst ` set example_messages))) = 1500"
    by (simp add: example_messages_def)
  from recording_roundtrip [OF cr nf bound surjective_pairing surjective_pairing] mx bytes
  show ?thesis by simp
qed

section \<open>The proxy recorder: lemmas and claims\<close>

subsection \<open>The loop of parseAndRecord\<close>

lemma parseLoop_Stop: "processFrame cfg st br = Stop e st' \<Longrightarrow> parseLoop cfg st br = (e, st')"
  by (subst parseLoop.simps) simp

lemma parseLoop_Continue:
  "processFrame cfg st br = Continue st' br' \<Longrightarrow> parseLoop cfg st br = parseLoop cfg st' br'"
  by (subst parseLoop.simps) simp

lemma processFrame_flag_mono:
  "compressionEnabled st \<Longrightarrow> compressionEnabled (state_of (processFrame cfg st br))"
  by (auto simp: processFrame_def Let_def split: prod.splits sum.splits option.splits)

lemma processFrame_flag_no_guess:
  "\<not> guessCompress cfg \<or> assumeNoCompress cfg \<Longrightarrow>
   compressionEnabled (state_of (processFrame cfg st br)) = compressionEnabled st"
  by (auto simp: processFrame_def Let_def split: prod.splits sum.splits option.splits)

lemma parseLoop_flag_mono:
  "compressionEnabled st \<Longrightarrow> compressionEnabled (snd (parseLoop cfg st br))"
proof (induction cfg st br rule: parseLoop.induct)
  case (1 cfg st br)
  show ?case
  proof (cases "processFrame cfg st br")
    case (Stop e st')
    with processFrame_flag_mono [OF "1.prems", of cfg br] show ?thesis
      by (simp add: parseLoop_Stop)
  next
    case (Continue st' br')
    with processFrame_flag_mono [OF "1.prems", of cfg br] have "compressionEnabled st'" by simp
    from "1.IH" [OF Continue this] show ?thesis by (simp add: parseLoop_Continue [OF Continue])
  qed
qed

lemma parseLoop_flag_no_guess:
  "\<not> guessCompress cfg \<or> assumeNoCompress cfg \<Longrightarrow>
   compressionEnabled (snd (parseLoop cfg st br)) = compressionEnabled st"
proof (induction cfg st br rule: parseLoop.induct)
  case (1 cfg st br)
  show ?case
  proof (cases "processFrame cfg st br")
    case (Stop e st')
    with processFrame_flag_no_guess [OF "1.prems", of st br] show ?thesis
      by (simp add: parseLoop_Stop)
  next
    case (Continue st' br')
    with processFrame_flag_no_guess [OF "1.prems", of st br]
    have "compressionEnabled st' = compressionEnabled st" by simp
    with "1.IH" [OF Continue "1.prems"] show ?thesis by (simp add: parseLoop_Continue [OF Continue])
  qed
qed

lemma parseLoop_flag_of_step:
  "compressionEnabled (state_of (processFrame cfg st br)) \<Longrightarrow>
   compressionEnabled (snd (parseLoop cfg st br))"
proof (cases "processFrame cfg st br")
  case (Stop e st')
  assume "compressionEnabled (state_of (processFrame cfg st br))"
  with Stop show ?thesis by (simp add: parseLoop_Stop)
next
  case (Continue st' br')
  assume "compressionEnabled (state_of (processFrame cfg st br))"
  with Continue have "compressionEnabled st'" by simp
  from parseLoop_flag_mono [OF this] show ?thesis by (simp add: parseLoop_Continue [OF Continue])
qed

lemma processFrame_flag_flips:
  assumes "guessCompress cfg" "\<not> assumeNoCompress cfg" "\<not> compressionEnabled st"
    and "readVarInt br = (Inr frameLen, br1)" "0 < sint frameLen" "sint frameLen \<le> maxFrame"
    and "ReadFull (unat frameLen) br1 = (Inr frame, br2)"
    and "readVarInt frame = (Inr pid64, payload)" "snd (singleVarInt payload)"
  shows "compressionEnabled (state_of (processFrame cfg st br))"
  using assms
  by (auto simp: processFrame_def decode_frame_def Let_def split: prod.splits option.splits)

lemma example_writer_recording: "recording example_writer []"
proof -
  have "Create (Inr example_file) [] 1700000000000 example_meta = Inr example_writer"
    by (simp add: example_writer_def Create_def NewWriter_def zip_Create_def sink_op_def Let_def)
  from Create_recording [OF this] show ?thesis by simp
qed

lemmas varint_eval = readVarInt_def readVarInt_loop.simps ReadFull_def singleVarInt_def maxFrame_def

text \<open>A VarInt read by \<open>readVarInt\<close> has at most 35 bits: as an \<^verbatim>\<open>int64\<close> it is never
  negative, so a frame length \<open>\<le> 0\<close> is the value 0, and the 5-byte encoding of a negative
  \<^verbatim>\<open>int32\<close> is read as a value above the ceiling.\<close>

lemma readVarInt_nonneg:
  assumes "readVarInt r = (Inr x, r')"
  shows "0 \<le> sint x \<and> sint x < 34359738368"
proof -
  from readVarInt_loop_value_bound [OF assms [unfolded readVarInt_def]]
  obtain k where k: "k \<le> 5" "take_bit (7 * k) x = x" by auto
  have "unat x = take_bit (7 * k) (unat x)"
    using k(2) by (metis unsigned_take_bit_eq)
  then have "unat x < 2 ^ (7 * k)" by (metis take_bit_nat_eq_self_iff)
  moreover have "(2::nat) ^ (7 * k) \<le> 2 ^ 35" using k(1) by (intro power_increasing) simp_all
  moreover have "(2::nat) ^ 35 = 34359738368" by simp
  ultimately have "unat x < 34359738368" by linarith
  then have "int (unat x) < int 34359738368" by (simp only: of_nat_less_iff)
  then have u: "uint x < 34359738368" by (simp only: uint_nat)
  have p: "(2::int) ^ 63 = 9223372036854775808" by simp
  have "- (2 ^ 63) \<le> uint x" "uint x < 2 ^ 63"
    unfolding p using u uint_ge_0 [of x] by linarith+
  then have "signed_take_bit 63 (uint x) = uint x"
    by (rule signed_take_bit_int_eq_self)
  moreover have "sint x = signed_take_bit (LENGTH(64) - Suc 0) (uint x)" by (rule sint_uint)
  ultimately have "sint x = uint x" by simp
  with u uint_ge_0 [of x] show ?thesis by simp
qed

text \<open>
  Claim C6. When the next frame-length VarInt of the stream decodes to a value that is
  \<open>\<le> 0\<close> or above the ceiling of 8 MiB, \<^verbatim>\<open>parseAndRecord\<close> rejects the frame with the
  error "invalid frame length" and returns, so recording halts; the writer is exactly as
  it was before that frame, so every message written before is unchanged. This holds at
  every turn of the loop, whatever was recorded before.
\<close>

theorem invalid_frame_length_halts:
  assumes "readVarInt br = (Inr frameLen, br1)"
    and "sint frameLen \<le> 0 \<or> maxFrame < sint frameLen"
  shows "processFrame cfg st br = Stop (ErrInvalidFrameLength frameLen) st \<and>
         parseLoop cfg st br = (ErrInvalidFrameLength frameLen, st) \<and>
         writer (snd (parseLoop cfg st br)) = writer st"
proof -
  have "processFrame cfg st br = Stop (ErrInvalidFrameLength frameLen) st"
    using assms by (auto simp: processFrame_def)
  then show ?thesis by (simp add: parseLoop_Stop)
qed

theorem invalid_frame_length_halts_witness:
  "parseLoop (example_cfg True) (example_state False) [0x00, 0x05] =
     (ErrInvalidFrameLength 0, example_state False) \<and>
   parseLoop (example_cfg True) (example_state False) [0x81, 0x80, 0x80, 0x04, 0x05] =
     (ErrInvalidFrameLength 8388609, example_state False) \<and>
   fst (parseAndRecord [0x02, 0x26, 0x0A, 0x00] example_writer (example_cfg False) (- 1)) =
     ErrInvalidFrameLength 0 \<and>
   entries (zw (writer (snd (parseAndRecord [0x02, 0x26, 0x0A, 0x00] example_writer
       (example_cfg False) (- 1))))) =
     [(''recording.tmcpr'', [Raw [0, 0, 0, 0, 0, 0, 0, 2], Raw [0x26], Raw [0x0A]])]"
proof -
  have r0: "readVarInt [0x00, 0x05] = (Inr 0, [0x05])"
    and r1: "readVarInt [0x81, 0x80, 0x80, 0x04, 0x05] = (Inr 8388609, [0x05])"
    and r2: "readVarInt [0x00] = (Inr 0, [])"
    by (simp_all add: varint_eval)
  have c0: "sint (0 :: int64) \<le> 0 \<or> maxFrame < sint (0 :: int64)" by simp
  have c1: "sint (8388609 :: int64) \<le> 0 \<or> maxFrame < sint (8388609 :: int64)"
    by (simp add: maxFrame_def)
  note a = invalid_frame_length_halts [OF r0 c0, of "example_cfg True" "example_state False"]
  note b = invalid_frame_length_halts [OF r1 c1, of "example_cfg True" "example_state False"]
  let ?st0 = "\<lparr>compressionEnabled = False, writer = example_writer, ticks = 0\<rparr>"
  let ?st1 = "state_of (processFrame (example_cfg False) ?st0 [0x02, 0x26, 0x0A, 0x00])"
  have enc: "encodeVarInt 0x26 = [0x26]"
    by (simp add: encodeVarInt_def encodeVarInt_loop.simps)
  have first: "processFrame (example_cfg False) ?st0 [0x02, 0x26, 0x0A, 0x00] = Continue ?st1 [0x00]"
    by (simp add: processFrame_def decode_frame_def example_cfg_def varint_eval enc
        example_writer_def example_file_def example_meta_def writer_eval)
  have ent: "entries (zw (writer ?st1)) =
     [(''recording.tmcpr'', [Raw [0, 0, 0, 0, 0, 0, 0, 2], Raw [0x26], Raw [0x0A]])]"
    by (simp add: processFrame_def decode_frame_def example_cfg_def varint_eval enc
        example_writer_def example_file_def example_meta_def writer_eval PutUint32_def)
  note c = invalid_frame_length_halts [OF r2 c0, of "example_cfg False" ?st1]
  have run: "parseAndRecord [0x02, 0x26, 0x0A, 0x00] example_writer (example_cfg False) (- 1) =
      (ErrInvalidFrameLength 0, ?st1)"
    using c parseLoop_Continue [OF first] by (simp add: parseAndRecord_def)
  show ?thesis using a b ent by (simp add: run)
qed

text \<open>
  Claim C7. The compression flag of \<^verbatim>\<open>parseAndRecord\<close> never goes from enabled back to
  disabled, in one turn of the loop or over all the turns that follow, so it changes at
  most once in a session. A frame whose extracted payload is exactly one VarInt with
  nothing left over enables it, for that turn and all later ones, when the heuristic is
  active (\<^verbatim>\<open>guessCompress\<close> set, \<^verbatim>\<open>assumeNoCompress\<close> not set) and the flag was not yet enabled.
  When the caller disabled the heuristic, no frame changes the flag.
\<close>

theorem compression_flag_transitions:
  "(compressionEnabled st \<longrightarrow>
      compressionEnabled (state_of (processFrame cfg st br)) \<and>
      compressionEnabled (snd (parseLoop cfg st br))) \<and>
   (\<not> guessCompress cfg \<or> assumeNoCompress cfg \<longrightarrow>
      compressionEnabled (state_of (processFrame cfg st br)) = compressionEnabled st \<and>
      compressionEnabled (snd (parseLoop cfg st br)) = compressionEnabled st) \<and>
   (guessCompress cfg \<and> \<not> assumeNoCompress cfg \<and> \<not> compressionEnabled st \<and>
    readVarInt br = (Inr frameLen, br1) \<and> 0 < sint frameLen \<and> sint frameLen \<le> maxFrame \<and>
    ReadFull (unat frameLen) br1 = (Inr frame, br2) \<and>
    readVarInt frame = (Inr pid64, payload) \<and> snd (singleVarInt payload) \<longrightarrow>
      compressionEnabled (state_of (processFrame cfg st br)) \<and>
      compressionEnabled (snd (parseLoop cfg st br)))"
  using processFrame_flag_mono [of st cfg br] parseLoop_flag_mono [of st cfg br]
    processFrame_flag_no_guess [of cfg st br] parseLoop_flag_no_guess [of cfg st br]
    processFrame_flag_flips [of cfg st br frameLen br1 frame br2 pid64 payload]
    parseLoop_flag_of_step [of cfg st br]
  by blast

theorem compression_flag_transitions_witness:
  "compressionEnabled (snd (parseAndRecord [0x03, 0x03, 0x80, 0x02] example_writer
      (example_cfg True) (- 1))) \<and>
   \<not> compressionEnabled (snd (parseAndRecord [0x03, 0x03, 0x80, 0x02] example_writer
      (example_cfg False) (- 1))) \<and>
   compressionEnabled (snd (parseAndRecord [0x03, 0x03, 0x80, 0x02] example_writer
      (example_cfg False) 256))"
proof -
  let ?br = "[0x03, 0x03, 0x80, 0x02] :: byte list"
  let ?st = "\<lparr>compressionEnabled = False, writer = example_writer, ticks = 0\<rparr>"
  let ?on = "\<lparr>compressionEnabled = True, writer = example_writer, ticks = 0\<rparr>"
  have h: "guessCompress (example_cfg True) \<and> \<not> assumeNoCompress (example_cfg True) \<and>
    \<not> compressionEnabled ?st \<and>
    readVarInt ?br = (Inr 3, [0x03, 0x80, 0x02]) \<and> 0 < sint (3 :: int64) \<and>
    sint (3 :: int64) \<le> maxFrame \<and>
    ReadFull (unat (3 :: int64)) [0x03, 0x80, 0x02] = (Inr [0x03, 0x80, 0x02], []) \<and>
    readVarInt [0x03, 0x80, 0x02] = (Inr 3, [0x80, 0x02]) \<and> snd (singleVarInt [0x80, 0x02])"
    by (simp add: example_cfg_def varint_eval)
  have g: "\<not> guessCompress (example_cfg False) \<or> assumeNoCompress (example_cfg False)"
    by (simp add: example_cfg_def)
  from compression_flag_transitions [of ?st "example_cfg True" ?br 3 "[0x03, 0x80, 0x02]"
      "[0x03, 0x80, 0x02]" "[]" 3 "[0x80, 0x02]"] h
  have a: "compressionEnabled (snd (parseLoop (example_cfg True) ?st ?br))" by blast
  from compression_flag_transitions [of ?st "example_cfg False" ?br] g
  have b: "compressionEnabled (snd (parseLoop (example_cfg False) ?st ?br)) = compressionEnabled ?st"
    by blast
  from compression_flag_transitions [of ?on "example_cfg False" ?br]
  have c: "compressionEnabled (snd (parseLoop (example_cfg False) ?on ?br))" by simp
  show ?thesis using a b c by (simp add: parseAndRecord_def)
qed

text \<open>
  Claim C8. While compression is enabled, a frame whose compressed block fails to
  decompress does not end the session and yields no error of its own: the raw bytes of the
  frame stand in for the decompressed content, a message is extracted from them (its id is
  the VarInt at the head of the frame, its payload the bytes after it) and written, and
  the loop goes on with the next frame. The only error this turn can return is one that
  \<^verbatim>\<open>WritePacket\<close> returns.
\<close>

theorem decompression_failure_falls_back:
  assumes "\<not> assumeNoCompress cfg" "compressionEnabled st"
    and "readVarInt br = (Inr frameLen, br1)" "0 < sint frameLen" "sint frameLen \<le> maxFrame"
    and "ReadFull (unat frameLen) br1 = (Inr frame, br2)"
    and "readVarInt frame = (Inr uncompressedSize, zr)" "0 < sint uncompressedSize"
    and "inflate cfg zr = None"
    and "WritePacket (clock cfg (ticks st)) (ucast uncompressedSize) zr (writer st) = (r, w')"
  shows "decode_frame cfg (compressionEnabled st) frame = frame \<and>
         processFrame cfg st br =
           (case r of
              None \<Rightarrow> Continue (st\<lparr>ticks := Suc (ticks st), writer := w'\<rparr>) br2
            | Some e \<Rightarrow> Stop e (st\<lparr>ticks := Suc (ticks st), writer := w'\<rparr>)) \<and>
         (r = None \<longrightarrow>
            parseLoop cfg st br = parseLoop cfg (st\<lparr>ticks := Suc (ticks st), writer := w'\<rparr>) br2)"
proof -
  have d: "decode_frame cfg (compressionEnabled st) frame = frame"
    using assms by (simp add: decode_frame_def)
  have p: "processFrame cfg st br =
           (case r of
              None \<Rightarrow> Continue (st\<lparr>ticks := Suc (ticks st), writer := w'\<rparr>) br2
            | Some e \<Rightarrow> Stop e (st\<lparr>ticks := Suc (ticks st), writer := w'\<rparr>))"
    using assms d by (auto simp: processFrame_def Let_def split: option.splits)
  show ?thesis using d p by (auto simp: parseLoop_Continue)
qed

theorem decompression_failure_falls_back_witness:
  "fst (WritePacket 0 5 [0x07, 0x26, 0x09] example_writer) = None \<and>
   decode_frame (example_cfg True) True [0x05, 0x07, 0x26, 0x09] = [0x05, 0x07, 0x26, 0x09] \<and>
   processFrame (example_cfg True) (example_state True) [0x04, 0x05, 0x07, 0x26, 0x09, 0x01, 0x00] =
     Continue ((example_state True)\<lparr>ticks := 1,
         writer := snd (WritePacket 0 5 [0x07, 0x26, 0x09] example_writer)\<rparr>) [0x01, 0x00] \<and>
   parseLoop (example_cfg True) (example_state True) [0x04, 0x05, 0x07, 0x26, 0x09, 0x01, 0x00] =
     parseLoop (example_cfg True) ((example_state True)\<lparr>ticks := 1,
         writer := snd (WritePacket 0 5 [0x07, 0x26, 0x09] example_writer)\<rparr>) [0x01, 0x00]"
proof -
  let ?st = "example_state True"
  let ?cfg = "example_cfg True"
  from WritePacket_recording [OF example_writer_recording, of 0 5 "[0x07, 0x26, 0x09]"]
  have ok: "fst (WritePacket 0 5 [0x07, 0x26, 0x09] example_writer) = None" by auto
  have h1: "\<not> assumeNoCompress ?cfg" "compressionEnabled ?st"
    by (simp_all add: example_cfg_def example_state_def)
  have h2: "readVarInt [0x04, 0x05, 0x07, 0x26, 0x09, 0x01, 0x00] = (Inr 4, [0x05, 0x07, 0x26, 0x09, 0x01, 0x00])"
    "0 < sint (4 :: int64)" "sint (4 :: int64) \<le> maxFrame"
    "ReadFull (unat (4 :: int64)) [0x05, 0x07, 0x26, 0x09, 0x01, 0x00] = (Inr [0x05, 0x07, 0x26, 0x09], [0x01, 0x00])"
    "readVarInt [0x05, 0x07, 0x26, 0x09] = (Inr 5, [0x07, 0x26, 0x09])"
    "0 < sint (5 :: int64)" "inflate ?cfg [0x07, 0x26, 0x09] = None"
    by (simp_all add: example_cfg_def varint_eval)
  have h3: "WritePacket (clock ?cfg (ticks ?st)) (ucast (5 :: int64)) [0x07, 0x26, 0x09] (writer ?st) =
      (None, snd (WritePacket 0 5 [0x07, 0x26, 0x09] example_writer))"
    using ok by (simp add: example_cfg_def example_state_def prod_eq_iff)
  from decompression_failure_falls_back [OF h1 h2 h3] ok h1(2)
  show ?thesis by (simp add: example_state_def)
qed

subsection \<open>forwardWithTee\<close>

text \<open>A tee whose writes all return, with nil or with an error, has no effect on what is
  forwarded: the bytes of a failed tee write are dropped.\<close>

lemma forwardWithTee_tee_returns:
  "TeeBlocks \<notin> set t \<Longrightarrow>
   returned (forwardWithTee src dst (Some t)) = returned (forwardWithTee src dst None) \<and>
   to_dst (forwardWithTee src dst (Some t)) = to_dst (forwardWithTee src dst None)"
proof (induction src arbitrary: dst t)
  case Nil
  then show ?case by simp
next
  case (Cons rd src)
  obtain buf rerr where rd: "rd = (buf, rerr)" by (cases rd)
  have tl: "TeeBlocks \<notin> set (tl t)" using Cons.prems by (cases t) auto
  have hd: "(case t of [] \<Rightarrow> TeeOk | x # _ \<Rightarrow> x) \<noteq> TeeBlocks"
    using Cons.prems by (cases t) auto
  note ih1 = Cons.IH [OF tl, of "tl dst"] and ih2 = Cons.IH [OF Cons.prems, of dst]
  show ?case
    using ih1 ih2 hd
    by (cases "case t of [] \<Rightarrow> TeeOk | x # _ \<Rightarrow> x")
       (auto simp: rd more_dst_def more_tee_def Let_def split: option.splits list.splits)
qed

text \<open>A tee write that does not return ends the forwarding there, whatever the source
  still has to deliver.\<close>

lemma forwardWithTee_blocked:
  "buf \<noteq> [] \<Longrightarrow>
   forwardWithTee ((buf, rerr) # src) (None # dst) (Some (TeeBlocks # t)) =
     \<lparr>returned = None, to_dst = buf, to_tee = []\<rparr>"
  by (simp add: more_dst_def)

text \<open>
  Claim C2 (the code departs from it). The claim: writing a chunk into the mirror never
  blocks or delays the forwarding from source to sink, also when the mirror's consumer is
  slow or has stopped reading; the mirrored bytes are then dropped. \<^verbatim>\<open>forwardWithTee\<close> calls
  \<^verbatim>\<open>tee.Write\<close> between \<^verbatim>\<open>dst.Write\<close> and the next \<^verbatim>\<open>src.Read\<close> and waits for it. With three
  chunks to forward and a tee whose second write does not return (the pipe of \<^verbatim>\<open>main\<close>
  once the parser has stopped reading), the third chunk is never forwarded and
  \<^verbatim>\<open>forwardWithTee\<close> does not return. With no tee, or with a tee whose writes return an
  error, all three chunks are forwarded.
\<close>

theorem forwarding_waits_for_tee:
  "forwardWithTee example_reads [] (Some [TeeOk, TeeBlocks]) =
     \<lparr>returned = None, to_dst = [0x01, 0x02], to_tee = [0x01]\<rparr> \<and>
   forwardWithTee example_reads [] None =
     \<lparr>returned = Some EOF, to_dst = [0x01, 0x02, 0x03], to_tee = []\<rparr> \<and>
   forwardWithTee example_reads [] (Some [TeeOk, TeeErr ErrClosedPipe, TeeErr ErrClosedPipe]) =
     \<lparr>returned = Some EOF, to_dst = [0x01, 0x02, 0x03], to_tee = [0x01]\<rparr>"
  by (simp add: example_reads_def more_dst_def more_tee_def)

end
